theory Spec2Isabelle
  imports Main "HOL-Library.Multiset"
begin

section \<open>Zeckendorf skip lists: the blocked and the static engine\<close>

text \<open>
  A shallow embedding of \<^verbatim>\<open>zeckendorf_skip_list/zsl/zsl.go\<close>.

  Go's \<^verbatim>\<open>int\<close> keys are modelled as \<^typ>\<open>int\<close>: the code only compares keys, except for
  the capacity \<^verbatim>\<open>hi-lo\<close> computed by \<^verbatim>\<open>BlockedZSL.Range\<close>, where the 64-bit wrap-around
  is written out. Slice indices, lengths, ranks and levels are \<^typ>\<open>nat\<close> wherever the code
  keeps them non-negative; so is the block size \<^verbatim>\<open>B\<close>, which the properties below take
  to be at least 1. \<^verbatim>\<open>B\<close> is an \<^verbatim>\<open>int\<close> of the program, hence below \<open>2 ^ 63\<close>; the product
  \<^verbatim>\<open>2*B\<close> that \<^verbatim>\<open>Insert\<close> computes wraps around from \<open>B = 2 ^ 62\<close> on, and the wrap-around is
  written out there too. A run-time panic is a value of type \<open>error\<close>; a loop that need
  not end is a \<^theory_text>\<open>partial_function\<close> whose value \<open>None\<close> stands for not returning.
\<close>

datatype error =
    IndexOutOfRange          \<comment> \<open>\<^verbatim>\<open>a[i]\<close> with \<^verbatim>\<open>i >= len(a)\<close>\<close>
  | SliceBoundsOutOfRange    \<comment> \<open>\<^verbatim>\<open>a[i:j]\<close> with bounds outside the slice\<close>
  | MakesliceCapOutOfRange   \<comment> \<open>\<^verbatim>\<open>make([]int, 0, c)\<close> with an impossible capacity\<close>

subsection \<open>Standard library: package sort\<close>

text \<open>
  \<^verbatim>\<open>sort.Search(n, f)\<close> is the binary search of Go's standard library:
  \<^verbatim>\<open>i, j := 0, n; for i < j { h := int(uint(i+j) >> 1); if !f(h) { i = h + 1 } else { j = h } }; return i\<close>.
\<close>

function sort_Search_loop :: "(nat \<Rightarrow> bool) \<Rightarrow> nat \<Rightarrow> nat \<Rightarrow> nat" where
  "sort_Search_loop f i j =
     (if i < j
      then (let h = (i + j) div 2
            in if \<not> f h then sort_Search_loop f (h + 1) j else sort_Search_loop f i h)
      else i)"
  by pat_completeness auto
termination
  by (relation "measure (\<lambda>(f, i, j). j - i)") auto

definition sort_Search :: "nat \<Rightarrow> (nat \<Rightarrow> bool) \<Rightarrow> nat" where
  "sort_Search n f = sort_Search_loop f 0 n"

text \<open>\<^verbatim>\<open>sort.SearchInts(a, x)\<close> is \<^verbatim>\<open>sort.Search(len(a), func(i int) bool { return a[i] >= x })\<close>.\<close>

definition sort_SearchInts :: "int list \<Rightarrow> int \<Rightarrow> nat" where
  "sort_SearchInts a x = sort_Search (length a) (\<lambda>i. a ! i \<ge> x)"

text \<open>
  \<^verbatim>\<open>sort.Ints(a)\<close> sorts the slice \<^verbatim>\<open>a\<close> in place in increasing order; the model returns
  the new contents of the slice.
\<close>

definition sort_Ints :: "int list \<Rightarrow> int list" where
  "sort_Ints a = sort a"

subsection \<open>The blocked engine\<close>

record BlockedZSL =
  blocks :: "int list list"
  heads :: "int list"
  B :: nat

text \<open>
  The deduplication loop of \<^verbatim>\<open>NewBlockedZSL\<close>. The loop state is the index \<^verbatim>\<open>i\<close>, the
  variable \<^verbatim>\<open>prevKey\<close> and the slice \<^verbatim>\<open>uniqueKeys\<close>. The source writes
  \<^verbatim>\<open>_ = append(uniqueKeys, key)\<close>: the slice returned by \<^verbatim>\<open>append\<close> is dropped, so
  the variable \<^verbatim>\<open>uniqueKeys\<close> keeps its length 0.
\<close>

fun blocked_dedupe_loop :: "int list \<Rightarrow> nat \<Rightarrow> int \<Rightarrow> int list \<Rightarrow> int list" where
  "blocked_dedupe_loop [] i prevKey uniqueKeys = uniqueKeys"
| "blocked_dedupe_loop (key # rest) i prevKey uniqueKeys =
     (if i = 0 \<or> key \<noteq> prevKey
      then blocked_dedupe_loop rest (i + 1) key uniqueKeys
      else blocked_dedupe_loop rest (i + 1) prevKey uniqueKeys)"

text \<open>
  The partition loop \<^verbatim>\<open>for startIdx := 0; startIdx < len(keys); startIdx += B\<close>. With
  \<^verbatim>\<open>B = 0\<close> and a non-empty slice it never ends.
\<close>

partial_function (option) partition_loop ::
  "int list \<Rightarrow> nat \<Rightarrow> nat \<Rightarrow> int list list \<Rightarrow> int list list option" where
  "partition_loop keys b startIdx blks =
     (if startIdx < length keys
      then (let endIdx = min (startIdx + b) (length keys)
            in partition_loop keys b (startIdx + b)
                 (blks @ [take (endIdx - startIdx) (drop startIdx keys)]))
      else Some blks)"

declare partition_loop.simps [code]

text \<open>The loop \<^verbatim>\<open>blockHeads[blockIdx] = block[0]\<close>; \<^verbatim>\<open>block[0]\<close> panics on an empty block.\<close>

fun block_heads :: "int list list \<Rightarrow> error + int list" where
  "block_heads [] = Inr []"
| "block_heads (block # rest) =
     (case block of
        [] \<Rightarrow> Inl IndexOutOfRange
      | k # _ \<Rightarrow> (case block_heads rest of Inl e \<Rightarrow> Inl e | Inr hs \<Rightarrow> Inr (k # hs)))"

text \<open>
  \<^verbatim>\<open>NewBlockedZSL(keys, B)\<close>. The result is \<open>None\<close> when the call does not return;
  otherwise it holds the contents of the caller's slice \<^verbatim>\<open>keys\<close> after the call (the
  slice is sorted in place) and the engine, or the panic that ended the call. The blocks
  are cut from \<^verbatim>\<open>keys\<close>, not from \<^verbatim>\<open>uniqueKeys\<close>, and each is a \<^verbatim>\<open>slices.Clone\<close>.
\<close>

definition NewBlockedZSL :: "int list \<Rightarrow> nat \<Rightarrow> (int list \<times> (error + BlockedZSL)) option" where
  "NewBlockedZSL keys b =
     (let keys' = sort_Ints keys;
          uniqueKeys = blocked_dedupe_loop keys' 0 0 []
      in case partition_loop keys' b 0 [] of
           None \<Rightarrow> None
         | Some blks \<Rightarrow>
             Some (keys',
                   case block_heads blks of
                     Inl e \<Rightarrow> Inl e
                   | Inr blockHeads \<Rightarrow> Inr \<lparr>blocks = blks, heads = blockHeads, B = b\<rparr>))"

definition blocked_GetKeys :: "BlockedZSL \<Rightarrow> int list" where
  "blocked_GetKeys bz = concat (blocks bz)"

definition blocked_GetSize :: "BlockedZSL \<Rightarrow> nat" where
  "blocked_GetSize bz = sum_list (map length (blocks bz))"

text \<open>
  \<^verbatim>\<open>Search\<close>: the block is the last one whose head is \<open>\<le> key\<close>; \<^verbatim>\<open>blockIdx < 0\<close>
  is \<^verbatim>\<open>targetBlockIdx = 0\<close>. \<^verbatim>\<open>bz.blocks[blockIdx]\<close> panics when there are fewer
  blocks than heads.
\<close>

definition blocked_Search :: "BlockedZSL \<Rightarrow> int \<Rightarrow> error + bool" where
  "blocked_Search bz key =
     (let numBlocks = length (heads bz);
          targetBlockIdx = sort_Search numBlocks (\<lambda>i. heads bz ! i > key)
      in if targetBlockIdx = 0 then Inr False
         else (let blockIdx = targetBlockIdx - 1
               in if blockIdx < length (blocks bz)
                  then (let currentBlock = blocks bz ! blockIdx;
                            keyPos = sort_SearchInts currentBlock key
                        in Inr (keyPos < length currentBlock \<and> currentBlock ! keyPos = key))
                  else Inl IndexOutOfRange))"

text \<open>
  The copy loops of \<^verbatim>\<open>Insert\<close> and \<^verbatim>\<open>Delete\<close> append \<^verbatim>\<open>xs[blockPos]\<close> for
  \<^verbatim>\<open>blockPos\<close> from \<open>lo\<close> up to, not including, \<open>hi\<close>; an index beyond the slice panics.
\<close>

definition index_range :: "'a list \<Rightarrow> nat \<Rightarrow> nat \<Rightarrow> error + 'a list" where
  "index_range xs lo hi =
     (if lo < hi \<and> length xs < hi then Inl IndexOutOfRange
      else Inr (take (hi - lo) (drop lo xs)))"

text \<open>\<^verbatim>\<open>xs[0]\<close>.\<close>

definition first_elem :: "'a list \<Rightarrow> error + 'a" where
  "first_elem xs = (case xs of [] \<Rightarrow> Inl IndexOutOfRange | x # _ \<Rightarrow> Inr x)"

text \<open>
  Arithmetic on Go's \<^verbatim>\<open>int\<close> is arithmetic modulo \<open>2 ^ 64\<close>, read as a signed number.
\<close>

definition int64_wrap :: "int \<Rightarrow> int" where
  "int64_wrap x = (x + 2 ^ 63) mod 2 ^ 64 - 2 ^ 63"

text \<open>
  \<^verbatim>\<open>Insert\<close>. The slice insert \<^verbatim>\<open>append(currentBlock, 0)\<close>, \<^verbatim>\<open>copy\<close>,
  \<^verbatim>\<open>currentBlock[insertPos] = key\<close> puts \<open>key\<close> at \<open>insertPos\<close> and shifts the tail right.
  A block longer than \<^verbatim>\<open>2*B\<close> is replaced by its first \<open>B\<close> keys and the rest.

  The product \<^verbatim>\<open>2*bz.B\<close> is an \<^verbatim>\<open>int\<close> and wraps around: for \<open>B \<ge> 2 ^ 62\<close> it is negative,
  the test \<^verbatim>\<open>len(currentBlock) > 2*bz.B\<close> succeeds for every block, and
  \<^verbatim>\<open>currentBlock[:bz.B]\<close> panics. A slice expression is checked against the capacity of
  the slice; \<open>B\<close> is at most the length whenever the product did not wrap, and is beyond
  every capacity when it did, so the check is written with the length.
\<close>

definition blocked_Insert :: "BlockedZSL \<Rightarrow> int \<Rightarrow> error + BlockedZSL" where
  "blocked_Insert bz key =
     (if length (blocks bz) = 0
      then Inr (bz\<lparr>blocks := [[key]], heads := [key]\<rparr>)
      else
        (let numBlocks = length (blocks bz);
             targetBlockIdx = sort_Search (length (heads bz)) (\<lambda>i. heads bz ! i > key);
             blockIdx = (if targetBlockIdx = 0 then 0
                         else if targetBlockIdx - 1 \<ge> numBlocks then numBlocks - 1
                         else targetBlockIdx - 1);
             currentBlock = blocks bz ! blockIdx;
             insertPos = sort_SearchInts currentBlock key
         in if insertPos < length currentBlock \<and> currentBlock ! insertPos = key
            then Inr bz
            else
              (let currentBlock' = take insertPos currentBlock @ [key] @ drop insertPos currentBlock;
                   blocks' = (blocks bz)[blockIdx := currentBlock']
               in if int (length currentBlock') > int64_wrap (2 * int (B bz))
                  then
                    if length currentBlock' < B bz then Inl SliceBoundsOutOfRange
                    else
                    (let leftBlock = take (B bz) currentBlock';
                         rightBlock = drop (B bz) currentBlock'
                     in case index_range (heads bz) 0 blockIdx of
                          Inl e \<Rightarrow> Inl e
                        | Inr headsBefore \<Rightarrow>
                           (case first_elem leftBlock of
                              Inl e \<Rightarrow> Inl e
                            | Inr leftHead \<Rightarrow>
                               (case first_elem rightBlock of
                                  Inl e \<Rightarrow> Inl e
                                | Inr rightHead \<Rightarrow>
                                   (case index_range (heads bz) (blockIdx + 1) numBlocks of
                                      Inl e \<Rightarrow> Inl e
                                    | Inr headsAfter \<Rightarrow>
                                        Inr (bz\<lparr>blocks := take blockIdx blocks' @ [leftBlock, rightBlock]
                                                            @ drop (blockIdx + 1) blocks',
                                                 heads := headsBefore @ [leftHead, rightHead]
                                                            @ headsAfter\<rparr>)))))
                  else if blockIdx < length (heads bz)
                       then Inr (bz\<lparr>blocks := blocks', heads := (heads bz)[blockIdx := hd currentBlock']\<rparr>)
                       else Inl IndexOutOfRange)))"

text \<open>
  \<^verbatim>\<open>Delete\<close>. The result is the returned flag and the engine after the call. The slice
  delete shifts the tail left by one. When the block is left with fewer than \<^verbatim>\<open>B/2\<close>
  keys and there is another block, it is concatenated with the following block (with the
  preceding one when it is the last); the concatenation is not split again.
\<close>

definition blocked_Delete :: "BlockedZSL \<Rightarrow> int \<Rightarrow> error + (bool \<times> BlockedZSL)" where
  "blocked_Delete bz key =
     (let numBlocks = length (blocks bz);
          targetBlockIdx = sort_Search (length (heads bz)) (\<lambda>i. heads bz ! i > key)
      in if targetBlockIdx = 0 \<or> targetBlockIdx - 1 \<ge> numBlocks then Inr (False, bz)
         else
           (let blockIdx = targetBlockIdx - 1;
                currentBlock = blocks bz ! blockIdx;
                keyPos = sort_SearchInts currentBlock key
            in if keyPos \<ge> length currentBlock \<or> currentBlock ! keyPos \<noteq> key
               then Inr (False, bz)
               else
                 (let currentBlock' = take keyPos currentBlock @ drop (keyPos + 1) currentBlock;
                      blocks' = (blocks bz)[blockIdx := currentBlock']
                  in if length currentBlock' < B bz div 2 \<and> numBlocks > 1
                     then
                       (let mergeBlockIdx = (if blockIdx = numBlocks - 1 then blockIdx - 1 else blockIdx);
                            leftBlock = blocks' ! mergeBlockIdx;
                            rightBlock = blocks' ! (mergeBlockIdx + 1);
                            mergedBlock = leftBlock @ rightBlock
                        in case index_range (heads bz) 0 mergeBlockIdx of
                             Inl e \<Rightarrow> Inl e
                           | Inr headsBefore \<Rightarrow>
                              (case first_elem mergedBlock of
                                 Inl e \<Rightarrow> Inl e
                               | Inr mergedHead \<Rightarrow>
                                  (case index_range (heads bz) (mergeBlockIdx + 2) numBlocks of
                                     Inl e \<Rightarrow> Inl e
                                   | Inr headsAfter \<Rightarrow>
                                       Inr (True,
                                            bz\<lparr>blocks := take mergeBlockIdx blocks' @ [mergedBlock]
                                                          @ drop (mergeBlockIdx + 2) blocks',
                                               heads := headsBefore @ [mergedHead] @ headsAfter\<rparr>))))
                     else if length currentBlock' > 0
                          then Inr (True, bz\<lparr>blocks := blocks',
                                            heads := (heads bz)[blockIdx := hd currentBlock']\<rparr>)
                          else Inr (True, bz\<lparr>blocks := blocks'\<rparr>))))"

text \<open>
  The inner loop of \<^verbatim>\<open>Range\<close> and \<^verbatim>\<open>RangeFunc\<close>, over the part of the block from
  \<^verbatim>\<open>startPos\<close> on: \<^verbatim>\<open>for pos < len(currentBlock) && currentBlock[pos] < hi\<close>. The keys
  appended to \<^verbatim>\<open>result\<close>, or handed to the callback \<^verbatim>\<open>fn\<close>, are collected in \<open>out\<close>.
\<close>

fun emit_loop :: "int list \<Rightarrow> int \<Rightarrow> int list \<Rightarrow> int list" where
  "emit_loop [] hi out = out"
| "emit_loop (k # rest) hi out = (if k < hi then emit_loop rest hi (out @ [k]) else out)"

text \<open>
  The block scan \<^verbatim>\<open>for blockIdx := startBlockIdx; blockIdx < len(bz.blocks); blockIdx++\<close>;
  \<^verbatim>\<open>bz.heads[blockIdx]\<close> panics when there are fewer heads than blocks.
\<close>

function scan_blocks :: "BlockedZSL \<Rightarrow> int \<Rightarrow> int \<Rightarrow> nat \<Rightarrow> nat \<Rightarrow> int list \<Rightarrow> error + int list" where
  "scan_blocks bz lo hi startBlockIdx blockIdx out =
     (if blockIdx < length (blocks bz)
      then if blockIdx < length (heads bz)
           then if heads bz ! blockIdx \<ge> hi then Inr out
                else (let currentBlock = blocks bz ! blockIdx;
                          startPos = (if blockIdx = startBlockIdx
                                      then sort_SearchInts currentBlock lo else 0)
                      in scan_blocks bz lo hi startBlockIdx (blockIdx + 1)
                           (emit_loop (drop startPos currentBlock) hi out))
           else Inl IndexOutOfRange
      else Inr out)"
  by pat_completeness auto
termination
  by (relation "measure (\<lambda>(bz, lo, hi, s, blockIdx, out). length (blocks bz) - blockIdx)") auto

text \<open>
  \<^verbatim>\<open>RangeFunc(lo, hi, fn)\<close>: the result is the sequence of arguments \<^verbatim>\<open>fn\<close> is called
  with, in call order. \<^verbatim>\<open>max(targetBlockIdx-1, 0)\<close> is the truncating subtraction on
  \<^typ>\<open>nat\<close>.
\<close>

definition blocked_RangeFunc :: "BlockedZSL \<Rightarrow> int \<Rightarrow> int \<Rightarrow> error + int list" where
  "blocked_RangeFunc bz lo hi =
     (let numBlocks = length (heads bz);
          targetBlockIdx = sort_Search numBlocks (\<lambda>i. heads bz ! i > lo);
          startBlockIdx = targetBlockIdx - 1
      in scan_blocks bz lo hi startBlockIdx startBlockIdx [])"

text \<open>
  \<^verbatim>\<open>Range\<close> first allocates \<^verbatim>\<open>make([]int, 0, hi-lo)\<close>. The subtraction is Go's 64-bit
  \<^verbatim>\<open>int\<close> subtraction, which wraps around. The runtime's \<^verbatim>\<open>makeslice\<close> panics when the
  capacity is negative or when the request, 8 bytes for each \<^verbatim>\<open>int\<close>, is larger than its
  limit \<^verbatim>\<open>maxAlloc\<close> (\<open>2 ^ 48\<close> bytes on 64-bit Linux). A request within the limit is
  taken to succeed.
\<close>

definition maxAlloc :: int where
  "maxAlloc = 2 ^ 48"

definition makeslice_cap_ok :: "int \<Rightarrow> bool" where
  "makeslice_cap_ok c = (0 \<le> c \<and> 8 * c \<le> maxAlloc)"

definition blocked_Range :: "BlockedZSL \<Rightarrow> int \<Rightarrow> int \<Rightarrow> error + int list" where
  "blocked_Range bz lo hi =
     (if \<not> makeslice_cap_ok (int64_wrap (hi - lo)) then Inl MakesliceCapOutOfRange
      else (let numBlocks = length (heads bz);
                targetBlockIdx = sort_Search numBlocks (\<lambda>i. heads bz ! i > lo);
                startBlockIdx = targetBlockIdx - 1
            in scan_blocks bz lo hi startBlockIdx startBlockIdx []))"

subsection \<open>The static engine\<close>

definition fibsOffsets :: "nat list" where
  "fibsOffsets =
     [1, 2, 3, 5, 8, 13, 21, 34, 55, 89,
      144, 233, 377, 610, 987, 1597, 2584, 4181,
      6765, 10946, 17711, 28657, 46368, 75025,
      121393, 196418, 317811, 514229, 832040,
      1346269, 2178309, 3524578, 5702887,
      9227465, 14930352, 24157817, 39088169,
      63245986, 102334155, 165580141,
      267914296, 433494437, 701408733,
      1134903170, 1836311903]"

record StaticZSL =
  keys :: "int list"
  maxLevel :: nat
  next_ptrs :: "nat list list"   \<comment> \<open>the field \<^verbatim>\<open>next\<close>: \<^verbatim>\<open>next[rank][level]\<close>, 0 for no pointer\<close>

text \<open>
  The first loop of \<^verbatim>\<open>buildPointers\<close>:
  \<^verbatim>\<open>for level, fibOffset := range fibsOffsets { if fibOffset > numKeys { break }; maxLevel = level + 1 }\<close>.
\<close>

fun maxLevel_loop :: "nat \<Rightarrow> nat \<Rightarrow> nat list \<Rightarrow> nat \<Rightarrow> nat" where
  "maxLevel_loop numKeys level [] m = m"
| "maxLevel_loop numKeys level (fibOffset # rest) m =
     (if fibOffset > numKeys then m else maxLevel_loop numKeys (level + 1) rest (level + 1))"

text \<open>
  The inner loop \<^verbatim>\<open>for remainingRank > 0 && levelIdx >= 0\<close> for one rank; \<^verbatim>\<open>levelIdx\<close>
  goes below zero, so it is an \<^typ>\<open>int\<close>. The state is the pointer table. Every index
  expression is checked as the Go runtime checks it.
\<close>

function zeck_loop :: "nat \<Rightarrow> nat \<Rightarrow> nat \<Rightarrow> int \<Rightarrow> nat list list \<Rightarrow> error + nat list list" where
  "zeck_loop numKeys rank remainingRank levelIdx nxt =
     (if remainingRank > 0 \<and> levelIdx \<ge> 0
      then if nat levelIdx < length fibsOffsets
           then (let fibOffset = fibsOffsets ! nat levelIdx
                 in if fibOffset \<le> remainingRank
                    then (let level = nat levelIdx + 1
                          in if rank + fibOffset \<le> numKeys
                             then if rank < length nxt \<and> level < length (nxt ! rank)
                                  then zeck_loop numKeys rank (remainingRank - fibOffset) (levelIdx - 2)
                                         (nxt[rank := (nxt ! rank)[level := rank + fibOffset]])
                                  else Inl IndexOutOfRange
                             else zeck_loop numKeys rank (remainingRank - fibOffset) (levelIdx - 2) nxt)
                    else zeck_loop numKeys rank remainingRank (levelIdx - 1) nxt)
           else Inl IndexOutOfRange
      else Inr nxt)"
  by pat_completeness auto
termination
  by (relation "measure (\<lambda>(numKeys, rank, remainingRank, levelIdx, nxt). nat (levelIdx + 1))") simp_all

text \<open>The loop \<^verbatim>\<open>for rank := 1; rank <= numKeys; rank++\<close>.\<close>

function rank_loop :: "nat \<Rightarrow> nat \<Rightarrow> nat \<Rightarrow> nat list list \<Rightarrow> error + nat list list" where
  "rank_loop numKeys mLevel rank nxt =
     (if rank \<le> numKeys
      then (case zeck_loop numKeys rank rank (int mLevel - 1) nxt of
              Inl e \<Rightarrow> Inl e
            | Inr nxt' \<Rightarrow> rank_loop numKeys mLevel (rank + 1) nxt')
      else Inr nxt)"
  by pat_completeness auto
termination
  by (relation "measure (\<lambda>(numKeys, mLevel, rank, nxt). numKeys + 1 - rank)") auto

text \<open>
  The head loop \<^verbatim>\<open>for level := 1; level <= zsl.maxLevel; level++\<close>, on the row
  \<^verbatim>\<open>zsl.next[0]\<close>.
\<close>

function head_loop :: "nat \<Rightarrow> nat \<Rightarrow> nat \<Rightarrow> nat list \<Rightarrow> error + nat list" where
  "head_loop numKeys mLevel level row =
     (if level \<le> mLevel
      then if level - 1 < length fibsOffsets
           then (let fibOffset = fibsOffsets ! (level - 1)
                 in if fibOffset \<le> numKeys
                    then if level < length row
                         then head_loop numKeys mLevel (level + 1) (row[level := fibOffset])
                         else Inl IndexOutOfRange
                    else head_loop numKeys mLevel (level + 1) row)
           else Inl IndexOutOfRange
      else Inr row)"
  by pat_completeness auto
termination
  by (relation "measure (\<lambda>(numKeys, mLevel, level, row). mLevel + 1 - level)") auto

text \<open>
  \<^verbatim>\<open>buildPointers\<close>: the table is allocated with \<open>numKeys + 1\<close> rows of \<open>maxLevel + 1\<close>
  zeros, filled rank by rank, and the row of rank 0 is replaced by the head pointers.
\<close>

definition buildPointers :: "StaticZSL \<Rightarrow> error + StaticZSL" where
  "buildPointers zsl =
     (let numKeys = length (keys zsl);
          mLevel = maxLevel_loop numKeys 0 fibsOffsets 0;
          nxt = replicate (numKeys + 1) (replicate (mLevel + 1) 0)
      in case rank_loop numKeys mLevel 1 nxt of
           Inl e \<Rightarrow> Inl e
         | Inr nxt' \<Rightarrow>
            (case head_loop numKeys mLevel 1 (replicate (mLevel + 1) 0) of
               Inl e \<Rightarrow> Inl e
             | Inr row0 \<Rightarrow>
                 Inr (zsl\<lparr>maxLevel := mLevel, next_ptrs := nxt'[0 := row0]\<rparr>)))"

text \<open>
  The deduplication loop of \<^verbatim>\<open>NewStaticZSL\<close>; here the result of \<^verbatim>\<open>append\<close> is
  assigned back to \<^verbatim>\<open>uniqueKeys\<close>.
\<close>

fun static_dedupe_loop :: "int list \<Rightarrow> nat \<Rightarrow> int \<Rightarrow> int list \<Rightarrow> int list" where
  "static_dedupe_loop [] i prevKey uniqueKeys = uniqueKeys"
| "static_dedupe_loop (key # rest) i prevKey uniqueKeys =
     (if i = 0 \<or> key \<noteq> prevKey
      then static_dedupe_loop rest (i + 1) key (uniqueKeys @ [key])
      else static_dedupe_loop rest (i + 1) prevKey uniqueKeys)"

text \<open>
  \<^verbatim>\<open>NewStaticZSL(keys)\<close>: the contents of the caller's slice after the call, and the
  engine or the panic that ended the call.
\<close>

definition NewStaticZSL :: "int list \<Rightarrow> int list \<times> (error + StaticZSL)" where
  "NewStaticZSL ks =
     (let ks' = sort_Ints ks;
          uniqueKeys = static_dedupe_loop ks' 0 0 []
      in (ks', buildPointers \<lparr>keys = uniqueKeys, maxLevel = 0, next_ptrs = []\<rparr>))"

text \<open>
  \<^verbatim>\<open>Search\<close>. The inner loop follows the pointers of one level:
  \<^verbatim>\<open>for nextNode := next[currentNode][level]; nextNode != 0 && keys[nextNode-1] <= key; { currentNode = nextNode; nextNode = next[currentNode][level] }\<close>.
  On a table with a cycle it would not end, so it is a partial function.
\<close>

partial_function (option) follow_loop ::
  "StaticZSL \<Rightarrow> int \<Rightarrow> nat \<Rightarrow> nat \<Rightarrow> nat \<Rightarrow> (error + nat) option" where
  "follow_loop zsl key level currentNode nextNode =
     (if nextNode \<noteq> 0
      then if nextNode - 1 < length (keys zsl)
           then if keys zsl ! (nextNode - 1) \<le> key
                then if nextNode < length (next_ptrs zsl) \<and> level < length (next_ptrs zsl ! nextNode)
                     then follow_loop zsl key level nextNode (next_ptrs zsl ! nextNode ! level)
                     else Some (Inl IndexOutOfRange)
                else Some (Inr currentNode)
           else Some (Inl IndexOutOfRange)
      else Some (Inr currentNode))"

declare follow_loop.simps [code]

text \<open>The outer loop \<^verbatim>\<open>for level := zsl.maxLevel; level > 0; level--\<close>.\<close>

fun level_loop :: "StaticZSL \<Rightarrow> int \<Rightarrow> nat \<Rightarrow> nat \<Rightarrow> (error + nat) option" where
  "level_loop zsl key 0 currentNode = Some (Inr currentNode)"
| "level_loop zsl key (Suc l) currentNode =
     (if currentNode < length (next_ptrs zsl) \<and> Suc l < length (next_ptrs zsl ! currentNode)
      then (case follow_loop zsl key (Suc l) currentNode (next_ptrs zsl ! currentNode ! Suc l) of
              None \<Rightarrow> None
            | Some (Inl e) \<Rightarrow> Some (Inl e)
            | Some (Inr currentNode') \<Rightarrow> level_loop zsl key l currentNode')
      else Some (Inl IndexOutOfRange))"

text \<open>
  After the loops \<^verbatim>\<open>Search\<close> reads \<^verbatim>\<open>zsl.next[currentNode][1]\<close> whatever
  \<^verbatim>\<open>maxLevel\<close> is, then compares the key at the final rank.
\<close>

definition static_Search :: "StaticZSL \<Rightarrow> int \<Rightarrow> (error + bool) option" where
  "static_Search zsl key =
     (case level_loop zsl key (maxLevel zsl) 0 of
        None \<Rightarrow> None
      | Some (Inl e) \<Rightarrow> Some (Inl e)
      | Some (Inr currentNode) \<Rightarrow>
          (if currentNode < length (next_ptrs zsl) \<and> 1 < length (next_ptrs zsl ! currentNode)
           then (let nextNode = next_ptrs zsl ! currentNode ! 1
                 in if nextNode \<noteq> 0 \<and> \<not> (nextNode - 1 < length (keys zsl))
                    then Some (Inl IndexOutOfRange)
                    else (let currentNode' = (if nextNode \<noteq> 0 \<and> keys zsl ! (nextNode - 1) = key
                                              then nextNode else currentNode)
                          in if currentNode' \<noteq> 0 \<and> \<not> (currentNode' - 1 < length (keys zsl))
                             then Some (Inl IndexOutOfRange)
                             else Some (Inr (currentNode' \<noteq> 0 \<and> keys zsl ! (currentNode' - 1) = key))))
           else Some (Inl IndexOutOfRange)))"

text \<open>\<^verbatim>\<open>Insert\<close>, \<^verbatim>\<open>Delete\<close>, \<^verbatim>\<open>GetKeys\<close>, \<^verbatim>\<open>GetSize\<close> and \<^verbatim>\<open>RangeFunc\<close> of the static engine.\<close>

definition static_Insert :: "StaticZSL \<Rightarrow> int \<Rightarrow> error + StaticZSL" where
  "static_Insert zsl key =
     (let insertPos = sort_SearchInts (keys zsl) key
      in if insertPos < length (keys zsl) \<and> keys zsl ! insertPos = key
         then Inr zsl
         else buildPointers
                (zsl\<lparr>keys := take insertPos (keys zsl) @ [key] @ drop insertPos (keys zsl)\<rparr>))"

definition static_Delete :: "StaticZSL \<Rightarrow> int \<Rightarrow> error + (bool \<times> StaticZSL)" where
  "static_Delete zsl key =
     (let keyPos = sort_SearchInts (keys zsl) key
      in if keyPos \<ge> length (keys zsl) \<or> keys zsl ! keyPos \<noteq> key
         then Inr (False, zsl)
         else (case buildPointers
                      (zsl\<lparr>keys := take keyPos (keys zsl) @ drop (keyPos + 1) (keys zsl)\<rparr>) of
                 Inl e \<Rightarrow> Inl e
               | Inr zsl' \<Rightarrow> Inr (True, zsl')))"

definition static_GetKeys :: "StaticZSL \<Rightarrow> int list" where
  "static_GetKeys zsl = keys zsl"

definition static_GetSize :: "StaticZSL \<Rightarrow> nat" where
  "static_GetSize zsl = length (keys zsl)"

definition static_RangeFunc :: "StaticZSL \<Rightarrow> int \<Rightarrow> int \<Rightarrow> int list" where
  "static_RangeFunc zsl lo hi =
     (let startPos = sort_SearchInts (keys zsl) lo
      in emit_loop (drop startPos (keys zsl)) hi [])"

subsection \<open>Sequences of operations on the blocked engine\<close>

text \<open>
  A history is a list of calls of \<^verbatim>\<open>Insert\<close> and \<^verbatim>\<open>Delete\<close>; running it stops at the
  first panic. The flag returned by \<^verbatim>\<open>Delete\<close> is dropped.
\<close>

datatype operation = Insert int | Delete int

fun is_Insert :: "operation \<Rightarrow> bool" where
  "is_Insert (Insert key) = True"
| "is_Insert (Delete key) = False"

fun blocked_apply :: "BlockedZSL \<Rightarrow> operation \<Rightarrow> error + BlockedZSL" where
  "blocked_apply bz (Insert key) = blocked_Insert bz key"
| "blocked_apply bz (Delete key) =
     (case blocked_Delete bz key of Inl e \<Rightarrow> Inl e | Inr (found, bz') \<Rightarrow> Inr bz')"

fun blocked_run :: "BlockedZSL \<Rightarrow> operation list \<Rightarrow> error + BlockedZSL" where
  "blocked_run bz [] = Inr bz"
| "blocked_run bz (x # xs) =
     (case blocked_apply bz x of Inl e \<Rightarrow> Inl e | Inr bz' \<Rightarrow> blocked_run bz' xs)"

text \<open>
  The block-size property as the specification states it: every block, unless it is the
  only one, has between \<^verbatim>\<open>B/2\<close> and \<^verbatim>\<open>2*B\<close> keys.
\<close>

definition sizes_as_claimed :: "BlockedZSL \<Rightarrow> bool" where
  "sizes_as_claimed bz \<longleftrightarrow>
     length (blocks bz) \<le> 1
     \<or> list_all (\<lambda>blk. B bz div 2 \<le> length blk \<and> length blk \<le> 2 * B bz) (blocks bz)"

text \<open>
  What the operations keep: the block size is at least 1 and below \<open>2 ^ 62\<close> (so that
  \<^verbatim>\<open>2*B\<close> does not wrap around), there are as many heads as blocks, every block but the
  last has at least \<^verbatim>\<open>B/2\<close> keys, and for \<^verbatim>\<open>B \<ge> 2\<close> the last of several blocks is not
  empty (so that the block a merge builds has a first key). The upper bound \<^verbatim>\<open>2*B\<close> is
  kept by \<^verbatim>\<open>Insert\<close>.
\<close>

definition size_inv :: "BlockedZSL \<Rightarrow> bool" where
  "size_inv bz \<longleftrightarrow>
     1 \<le> B bz \<and> B bz < 2 ^ 62 \<and> length (heads bz) = length (blocks bz)
     \<and> (\<forall>blk \<in> set (butlast (blocks bz)). B bz div 2 \<le> length blk)
     \<and> (2 \<le> B bz \<and> 1 < length (blocks bz) \<longrightarrow> last (blocks bz) \<noteq> [])"

definition upper_inv :: "BlockedZSL \<Rightarrow> bool" where
  "upper_inv bz \<longleftrightarrow> (\<forall>blk \<in> set (blocks bz). length blk \<le> 2 * B bz)"

subsection \<open>Histories on the static engine\<close>

text \<open>The same histories, run on the static engine.\<close>

fun static_apply :: "StaticZSL \<Rightarrow> operation \<Rightarrow> error + StaticZSL" where
  "static_apply zsl (Insert key) = static_Insert zsl key"
| "static_apply zsl (Delete key) =
     (case static_Delete zsl key of Inl e \<Rightarrow> Inl e | Inr (found, zsl') \<Rightarrow> Inr zsl')"

fun static_run :: "StaticZSL \<Rightarrow> operation list \<Rightarrow> error + StaticZSL" where
  "static_run zsl [] = Inr zsl"
| "static_run zsl (x # xs) =
     (case static_apply zsl x of Inl e \<Rightarrow> Inl e | Inr zsl' \<Rightarrow> static_run zsl' xs)"

subsection \<open>Blocked engines holding a duplicate-free key set\<close>

text \<open>
  \<^verbatim>\<open>Delete\<close> can empty the last block and leaves its entry of \<^verbatim>\<open>heads\<close> in place, and
  the searches go on comparing with that head. The keys that order the structure are
  thus those of the blocks, an empty block being stood for by its head.
\<close>

definition vblock :: "int \<Rightarrow> int list \<Rightarrow> int list" where
  "vblock h blk = (if blk = [] then [h] else blk)"

fun virtual :: "int list \<Rightarrow> int list list \<Rightarrow> int list" where
  "virtual (h # hs) (blk # blks) = vblock h blk @ virtual hs blks"
| "virtual hs blks = []"

text \<open>The head of a block that has keys is the first of them.\<close>

definition headed :: "int \<Rightarrow> int list \<Rightarrow> bool" where
  "headed h blk \<longleftrightarrow> (blk \<noteq> [] \<longrightarrow> h = hd blk)"

text \<open>
  The states in which the operations do what their comments say: the sizes are as
  \<open>size_inv\<close> has them, every head is the first key of its block, and the keys, with
  the heads of the empty blocks, ascend strictly.
\<close>

definition well_formed :: "BlockedZSL \<Rightarrow> bool" where
  "well_formed bz \<longleftrightarrow>
     size_inv bz \<and> list_all2 headed (heads bz) (blocks bz)
     \<and> sorted_wrt (<) (virtual (heads bz) (blocks bz))"

text \<open>
  A static and a blocked engine that hold the same strictly ascending keys.
\<close>

definition agree :: "StaticZSL \<Rightarrow> BlockedZSL \<Rightarrow> bool" where
  "agree zsl bz \<longleftrightarrow>
     well_formed bz \<and> sorted_wrt (<) (keys zsl) \<and> static_GetKeys zsl = blocked_GetKeys bz"

subsection \<open>The Zeckendorf decomposition, as the specification words it\<close>

text \<open>
  The specification describes the decomposition of a rank: pick the largest offset
  \<open>F[i] \<le> remaining\<close>, subtract it, and continue with the offset indices up to \<open>i - 2\<close>.
  \<open>zeckendorf bound r\<close> does so among the indices below \<open>bound\<close>: the candidates are
  listed from the largest index down and the first one that fits is taken. The result is
  the list of the selected indices. This definition is not taken from the code; the loop
  of \<^verbatim>\<open>buildPointers\<close> is compared with it below.
\<close>

function zeckendorf :: "nat \<Rightarrow> nat \<Rightarrow> nat list" where
  "zeckendorf bound r =
     (case filter (\<lambda>i. fibsOffsets ! i \<le> r) (rev [0..<bound]) of
        [] \<Rightarrow> []
      | i # _ \<Rightarrow> i # zeckendorf (i - 1) (r - fibsOffsets ! i))"
  by pat_completeness auto
termination
proof (relation "measure (\<lambda>(bound, r). bound)")
  show "wf (measure (\<lambda>(bound, r). bound))" by simp
next
  fix bound r :: nat and x21 x22
  assume "filter (\<lambda>i. fibsOffsets ! i \<le> r) (rev [0..<bound]) = x21 # x22"
  then have "x21 \<in> set (filter (\<lambda>i. fibsOffsets ! i \<le> r) (rev [0..<bound]))"
    by simp
  then have "x21 < bound" by simp
  then show "((x21 - 1, r - fibsOffsets ! x21), bound, r) \<in> measure (\<lambda>(bound, r). bound)"
    by simp
qed

declare zeckendorf.simps [simp del]

definition zeckendorf_terms :: "nat \<Rightarrow> nat list" where
  "zeckendorf_terms r = zeckendorf (length fibsOffsets) r"

text \<open>The number of table entries that do not exceed \<open>n\<close>, as the first loop of \<^verbatim>\<open>buildPointers\<close> counts them.\<close>

definition fib_level :: "nat \<Rightarrow> nat" where
  "fib_level n = maxLevel_loop n 0 fibsOffsets 0"

text \<open>
  Closed forms of the three loops, used to state what they compute: the row of one rank
  once the terms \<open>ts\<close> have been entered, the table once the ranks from \<open>rank\<close> to \<open>n\<close> have
  been treated, and the head row once the levels from \<open>level\<close> to \<open>m\<close> have been treated.
\<close>

definition zeck_row :: "nat \<Rightarrow> nat \<Rightarrow> nat list \<Rightarrow> nat list \<Rightarrow> nat list" where
  "zeck_row n rank ts row =
     map (\<lambda>L. if 1 \<le> L \<and> (L - 1) \<in> set ts \<and> rank + fibsOffsets ! (L - 1) \<le> n
              then rank + fibsOffsets ! (L - 1) else row ! L)
         [0..<length row]"

definition rank_rows :: "nat \<Rightarrow> nat \<Rightarrow> nat \<Rightarrow> nat list list \<Rightarrow> nat list list" where
  "rank_rows n m rank nxt =
     map (\<lambda>r. if rank \<le> r \<and> r \<le> n then zeck_row n r (zeckendorf m r) (nxt ! r) else nxt ! r)
         [0..<length nxt]"

definition head_row :: "nat \<Rightarrow> nat \<Rightarrow> nat \<Rightarrow> nat list \<Rightarrow> nat list" where
  "head_row n m level row =
     map (\<lambda>L. if level \<le> L \<and> L \<le> m \<and> fibsOffsets ! (L - 1) \<le> n
              then fibsOffsets ! (L - 1) else row ! L)
         [0..<length row]"

text \<open>
  The closed form of the partition loop of \<^verbatim>\<open>NewBlockedZSL\<close>: the list cut into
  consecutive pieces of \<open>b\<close> elements, the last one possibly shorter.
\<close>

function chunks :: "nat \<Rightarrow> 'a list \<Rightarrow> 'a list list" where
  "chunks b xs = (if xs = [] \<or> b = 0 then [] else take b xs # chunks b (drop b xs))"
  by pat_completeness auto
termination
  by (relation "measure (\<lambda>(b, xs). length xs)") auto

declare chunks.simps [simp del]

declare sort_Search_loop.simps [simp del]
declare scan_blocks.simps [simp del]
declare zeck_loop.simps [simp del]

declare rank_loop.simps [simp del]

declare head_loop.simps [simp del]


section \<open>Properties\<close>

subsection \<open>The pointer table of the static engine\<close>

lemma fibs_length: "length fibsOffsets = 45"
  by (simp add: fibsOffsets_def)

lemma fibs_strict: "sorted_wrt (<) fibsOffsets"
  by (simp add: fibsOffsets_def)

lemma fibs_pos: "f \<in> set fibsOffsets \<Longrightarrow> 1 \<le> f"
  by (auto simp add: fibsOffsets_def)

lemma fibs_nth_less: "i < j \<Longrightarrow> j < length fibsOffsets \<Longrightarrow> fibsOffsets ! i < fibsOffsets ! j"
  using fibs_strict by (simp add: sorted_wrt_iff_nth_less)

lemma fibs_nth_pos: "i < length fibsOffsets \<Longrightarrow> 0 < fibsOffsets ! i"
  using fibs_pos [of "fibsOffsets ! i"] by (simp del: One_nat_def) 


lemma maxLevel_loop_takeWhile:
  "maxLevel_loop n level fs m =
     (if takeWhile (\<lambda>f. f \<le> n) fs = [] then m else level + length (takeWhile (\<lambda>f. f \<le> n) fs))"
  by (induction fs arbitrary: level m) auto


lemma fib_level_eq: "fib_level n = length (takeWhile (\<lambda>f. f \<le> n) fibsOffsets)"
  by (simp add: fib_level_def maxLevel_loop_takeWhile)

lemma fib_level_le: "fib_level n \<le> length fibsOffsets"
  by (simp add: fib_level_eq length_takeWhile_le)

lemma fib_level_below: "i < fib_level n \<Longrightarrow> fibsOffsets ! i \<le> n"
proof -
  assume a: "i < fib_level n"
  then have "takeWhile (\<lambda>f. f \<le> n) fibsOffsets ! i \<in> set (takeWhile (\<lambda>f. f \<le> n) fibsOffsets)"
    by (simp add: fib_level_eq)
  then have "takeWhile (\<lambda>f. f \<le> n) fibsOffsets ! i \<le> n"
    by (auto dest: set_takeWhileD)
  moreover have "takeWhile (\<lambda>f. f \<le> n) fibsOffsets ! i = fibsOffsets ! i"
    using a by (simp add: fib_level_eq takeWhile_nth)
  ultimately show ?thesis by simp
qed

lemma fib_level_above:
  assumes "fib_level n \<le> i" "i < length fibsOffsets"
  shows "n < fibsOffsets ! i"
proof -
  have lt: "fib_level n < length fibsOffsets" using assms by simp
  then have "\<not> fibsOffsets ! fib_level n \<le> n"
    unfolding fib_level_eq by (rule nth_length_takeWhile)
  moreover have "fibsOffsets ! fib_level n \<le> fibsOffsets ! i"
  proof (cases "fib_level n = i")
    case True then show ?thesis by simp
  next
    case False
    with assms have "fib_level n < i" by simp
    then show ?thesis using fibs_nth_less [of "fib_level n" i] assms by simp
  qed
  ultimately show ?thesis by simp
qed

lemma zeckendorf_0: "bound \<le> length fibsOffsets \<Longrightarrow> zeckendorf bound 0 = []"
proof -
  assume b: "bound \<le> length fibsOffsets"
  have "filter (\<lambda>i. fibsOffsets ! i \<le> 0) (rev [0..<bound]) = []"
    using b fibs_nth_pos by (auto simp add: filter_empty_conv)
  then show ?thesis by (subst zeckendorf.simps) simp
qed

lemma zeckendorf_Suc_take:
  "fibsOffsets ! b \<le> r \<Longrightarrow> zeckendorf (Suc b) r = b # zeckendorf (b - 1) (r - fibsOffsets ! b)"
  by (subst zeckendorf.simps) simp

lemma zeckendorf_Suc_skip:
  "\<not> fibsOffsets ! b \<le> r \<Longrightarrow> zeckendorf (Suc b) r = zeckendorf b r"
  by (subst zeckendorf.simps, subst (2) zeckendorf.simps) simp

lemma zeckendorf_less: "i \<in> set (zeckendorf bound r) \<Longrightarrow> i < bound"
proof (induction bound r rule: zeckendorf.induct)
  case (1 bound r)
  show ?case
  proof (cases "filter (\<lambda>i. fibsOffsets ! i \<le> r) (rev [0..<bound])")
    case Nil
    with "1.prems" show ?thesis by (subst (asm) zeckendorf.simps) simp
  next
    case (Cons j js)
    then have "j \<in> set (filter (\<lambda>i. fibsOffsets ! i \<le> r) (rev [0..<bound]))" by simp
    then have j: "j < bound" by simp
    from Cons "1.prems" have "i = j \<or> i \<in> set (zeckendorf (j - 1) (r - fibsOffsets ! j))"
      by (subst (asm) zeckendorf.simps) simp
    then show ?thesis
    proof
      assume "i = j" with j show ?thesis by simp
    next
      assume "i \<in> set (zeckendorf (j - 1) (r - fibsOffsets ! j))"
      then have "i < j - 1" using "1.IH" [OF Cons] by simp
      with j show ?thesis by simp
    qed
  qed
qed

lemma zeckendorf_no_consecutive:
  "i \<in> set (zeckendorf bound r) \<Longrightarrow> Suc i \<notin> set (zeckendorf bound r)"
proof (induction bound r rule: zeckendorf.induct)
  case (1 bound r)
  show ?case
  proof (cases "filter (\<lambda>i. fibsOffsets ! i \<le> r) (rev [0..<bound])")
    case Nil
    with "1.prems" show ?thesis by (subst (asm) zeckendorf.simps) simp
  next
    case (Cons j js)
    let ?rest = "zeckendorf (j - 1) (r - fibsOffsets ! j)"
    have eq: "zeckendorf bound r = j # ?rest" using Cons by (subst zeckendorf.simps) simp
    have below: "\<And>k. k \<in> set ?rest \<Longrightarrow> k < j - 1" by (rule zeckendorf_less)
    from eq "1.prems" have "i = j \<or> i \<in> set ?rest" by simp
    then show ?thesis
    proof
      assume "i = j"
      then show ?thesis using eq below [of "Suc i"] by auto
    next
      assume r: "i \<in> set ?rest"
      then have "Suc i \<notin> set ?rest" using "1.IH" [OF Cons] by simp
      moreover have "Suc i \<noteq> j" using below [OF r] by simp
      ultimately show ?thesis using eq by simp
    qed
  qed
qed

lemma zeckendorf_bound_irrelevant:
  assumes "m \<le> b" and above: "\<And>i. m \<le> i \<Longrightarrow> i < b \<Longrightarrow> r < fibsOffsets ! i"
  shows "zeckendorf b r = zeckendorf m r"
proof -
  have split: "rev [0..<b] = rev [m..<b] @ rev [0..<m]"
  proof -
    have "[0..<b] = [0..<m] @ [m..<b]"
      using assms(1) upt_add_eq_append [of 0 m "b - m"] by simp
    then show ?thesis by simp
  qed
  have "filter (\<lambda>i. fibsOffsets ! i \<le> r) (rev [m..<b]) = []"
    using above by (auto simp add: filter_empty_conv not_le)
  then have "filter (\<lambda>i. fibsOffsets ! i \<le> r) (rev [0..<b])
           = filter (\<lambda>i. fibsOffsets ! i \<le> r) (rev [0..<m])"
    by (simp add: split)
  then show ?thesis
    by (subst zeckendorf.simps, subst (2) zeckendorf.simps) simp
qed


lemma zeck_row_length [simp]: "length (zeck_row n rank ts row) = length row"
  by (simp add: zeck_row_def)

lemma zeck_row_Nil: "zeck_row n rank [] row = row"
  by (simp add: zeck_row_def map_nth)

lemma zeck_row_Cons_set:
  "Suc i < length row \<Longrightarrow> rank + fibsOffsets ! i \<le> n \<Longrightarrow>
   zeck_row n rank ts (row[Suc i := rank + fibsOffsets ! i]) = zeck_row n rank (i # ts) row"
  by (auto simp add: zeck_row_def nth_list_update)

lemma zeck_row_Cons_skip:
  "\<not> rank + fibsOffsets ! i \<le> n \<Longrightarrow> zeck_row n rank (i # ts) row = zeck_row n rank ts row"
  by (auto simp add: zeck_row_def)

lemma zeck_loop_char:
  "rank < length nxt \<Longrightarrow> levelIdx + 1 < int (length (nxt ! rank)) \<Longrightarrow>
   levelIdx < int (length fibsOffsets) \<Longrightarrow>
   zeck_loop n rank rem levelIdx nxt
     = Inr (nxt[rank := zeck_row n rank (zeckendorf (nat (levelIdx + 1)) rem) (nxt ! rank)])"
proof (induction n rank rem levelIdx nxt rule: zeck_loop.induct)
  case (1 numKeys rank remainingRank levelIdx nxt)
  let ?row = "nxt ! rank"
  show ?case
  proof (cases "remainingRank > 0 \<and> levelIdx \<ge> 0")
    case False
    have "zeckendorf (nat (levelIdx + 1)) remainingRank = []"
    proof (cases "remainingRank = 0")
      case True
      then show ?thesis using "1.prems"(3) by (simp add: zeckendorf_0)
    next
      case False
      with \<open>\<not> (remainingRank > 0 \<and> levelIdx \<ge> 0)\<close> have "nat (levelIdx + 1) = 0" by simp
      then show ?thesis by (subst zeckendorf.simps) simp
    qed
    moreover have "zeck_loop numKeys rank remainingRank levelIdx nxt = Inr nxt"
      using False by (subst zeck_loop.simps) auto
    ultimately show ?thesis
      by (simp add: zeck_row_Nil)
  next
    case True
    then have pos: "remainingRank > 0" and nonneg: "levelIdx \<ge> 0" by simp_all
    have inr: "nat levelIdx < length fibsOffsets" using "1.prems"(3) nonneg by simp
    have suc: "nat (levelIdx + 1) = Suc (nat levelIdx)" using nonneg by simp
    have lvl: "Suc (nat levelIdx) < length ?row" using "1.prems"(2) nonneg by simp
    let ?f = "fibsOffsets ! nat levelIdx"
    show ?thesis
    proof (cases "?f \<le> remainingRank")
      case False
      have "zeck_loop numKeys rank remainingRank (levelIdx - 1) nxt
            = Inr (nxt[rank := zeck_row numKeys rank (zeckendorf (nat (levelIdx - 1 + 1)) remainingRank) ?row])"
        using "1.IH"(3) [OF True inr refl False] "1.prems" by simp
      moreover have "zeckendorf (nat (levelIdx + 1)) remainingRank = zeckendorf (nat levelIdx) remainingRank"
        using False by (simp add: suc zeckendorf_Suc_skip)
      ultimately show ?thesis using True inr False
        by (subst zeck_loop.simps) (simp add: Let_def)
    next
      case take: True
      have zk: "zeckendorf (nat (levelIdx + 1)) remainingRank
                = nat levelIdx # zeckendorf (nat levelIdx - 1) (remainingRank - ?f)"
        using take by (simp add: suc zeckendorf_Suc_take)
      have idx2: "nat (levelIdx - 1) = nat levelIdx - 1" using nonneg by simp
      show ?thesis
      proof (cases "rank + ?f \<le> numKeys")
        case inb: True
        let ?nxt' = "nxt[rank := ?row[Suc (nat levelIdx) := rank + ?f]]"
        have chk: "rank < length nxt \<and> nat levelIdx + 1 < length ?row"
          using "1.prems"(1) lvl by simp
        have "zeck_loop numKeys rank (remainingRank - ?f) (levelIdx - 2) ?nxt'
              = Inr (?nxt'[rank := zeck_row numKeys rank
                       (zeckendorf (nat (levelIdx - 2 + 1)) (remainingRank - ?f)) (?nxt' ! rank)])"
          using "1.IH"(1) [OF True inr refl take refl inb chk] "1.prems" by simp
        then have "zeck_loop numKeys rank (remainingRank - ?f) (levelIdx - 2) ?nxt'
              = Inr (nxt[rank := zeck_row numKeys rank
                       (nat levelIdx # zeckendorf (nat levelIdx - 1) (remainingRank - ?f)) ?row])"
          using "1.prems"(1) lvl inb by (simp add: idx2 zeck_row_Cons_set)
        then show ?thesis using True inr take inb chk
          by (subst zeck_loop.simps) (simp add: Let_def zk)
      next
        case outb: False
        have "zeck_loop numKeys rank (remainingRank - ?f) (levelIdx - 2) nxt
              = Inr (nxt[rank := zeck_row numKeys rank
                       (zeckendorf (nat (levelIdx - 2 + 1)) (remainingRank - ?f)) ?row])"
          using "1.IH"(2) [OF True inr refl take refl outb] "1.prems" by simp
        then show ?thesis using True inr take outb
          by (subst zeck_loop.simps) (simp add: Let_def zk idx2 zeck_row_Cons_skip)
      qed
    qed
  qed
qed


lemma rank_rows_done: "n < rank \<Longrightarrow> rank_rows n m rank nxt = nxt"
  by (rule nth_equalityI) (auto simp add: rank_rows_def)

lemma rank_rows_step:
  "rank < length nxt \<Longrightarrow> rank \<le> n \<Longrightarrow>
   rank_rows n m (Suc rank) (nxt[rank := zeck_row n rank (zeckendorf m rank) (nxt ! rank)])
     = rank_rows n m rank nxt"
  by (rule nth_equalityI) (auto simp add: rank_rows_def nth_list_update Suc_le_eq)

lemma rank_loop_char:
  "length nxt = n + 1 \<Longrightarrow> \<forall>row \<in> set nxt. length row = m + 1 \<Longrightarrow> m \<le> length fibsOffsets \<Longrightarrow>
   rank_loop n m rank nxt = Inr (rank_rows n m rank nxt)"
proof (induction n m rank nxt rule: rank_loop.induct)
  case (1 numKeys mLevel rank nxt)
  show ?case
  proof (cases "rank \<le> numKeys")
    case False
    then show ?thesis
      by (subst rank_loop.simps) (simp add: rank_rows_done)
  next
    case True
    let ?nxt' = "nxt[rank := zeck_row numKeys rank (zeckendorf mLevel rank) (nxt ! rank)]"
    have r: "rank < length nxt" using True "1.prems"(1) by simp
    then have row: "length (nxt ! rank) = mLevel + 1" using "1.prems"(2) by simp
    have z: "zeck_loop numKeys rank rank (int mLevel - 1) nxt = Inr ?nxt'"
      using zeck_loop_char [of rank nxt "int mLevel - 1" numKeys rank] r row "1.prems"(3)
      by simp
    have rows': "\<forall>row \<in> set ?nxt'. length row = mLevel + 1"
    proof
      fix row assume "row \<in> set ?nxt'"
      then have "row \<in> insert (zeck_row numKeys rank (zeckendorf mLevel rank) (nxt ! rank)) (set nxt)"
        using set_update_subset_insert by fastforce
      then show "length row = mLevel + 1" using "1.prems"(2) row by auto
    qed
    have "rank_loop numKeys mLevel (rank + 1) ?nxt' = Inr (rank_rows numKeys mLevel (rank + 1) ?nxt')"
      using "1.IH" [OF True z] "1.prems" rows' by simp
    then show ?thesis using True z r
      by (subst rank_loop.simps) (simp add: rank_rows_step)
  qed
qed

lemma head_row_done: "m < level \<Longrightarrow> head_row n m level row = row"
  by (rule nth_equalityI) (simp_all add: head_row_def)

lemma head_row_set:
  "level < length row \<Longrightarrow> level \<le> m \<Longrightarrow> fibsOffsets ! (level - Suc 0) \<le> n \<Longrightarrow>
   head_row n m (Suc level) (row[level := fibsOffsets ! (level - Suc 0)]) = head_row n m level row"
  by (rule nth_equalityI) (auto simp add: head_row_def nth_list_update Suc_le_eq)

lemma head_row_skip:
  "\<not> fibsOffsets ! (level - Suc 0) \<le> n \<Longrightarrow> head_row n m (Suc level) row = head_row n m level row"
proof (rule nth_equalityI)
  show "length (head_row n m (Suc level) row) = length (head_row n m level row)"
    by (simp add: head_row_def)
next
  fix i
  assume a: "\<not> fibsOffsets ! (level - Suc 0) \<le> n" and "i < length (head_row n m (Suc level) row)"
  then have i: "i < length row" by (simp add: head_row_def)
  show "head_row n m (Suc level) row ! i = head_row n m level row ! i"
  proof (cases "i = level")
    case True
    then show ?thesis using a i by (simp add: head_row_def)
  next
    case False
    then have "Suc level \<le> i \<longleftrightarrow> level \<le> i" by arith
    then show ?thesis using i by (simp add: head_row_def)
  qed
qed

lemma head_loop_char:
  "1 \<le> level \<Longrightarrow> m < length row \<Longrightarrow> m \<le> length fibsOffsets \<Longrightarrow>
   head_loop n m level row = Inr (head_row n m level row)"
proof (induction n m level row rule: head_loop.induct)
  case (1 numKeys mLevel level row)
  show ?case
  proof (cases "level \<le> mLevel")
    case False
    then show ?thesis
      by (subst head_loop.simps) (simp add: head_row_done)
  next
    case True
    have inr: "level - 1 < length fibsOffsets" using True "1.prems" by simp
    show ?thesis
    proof (cases "fibsOffsets ! (level - 1) \<le> numKeys")
      case le: True
      have chk: "level < length row" using True "1.prems" by simp
      have "head_loop numKeys mLevel (level + 1) (row[level := fibsOffsets ! (level - 1)])
            = Inr (head_row numKeys mLevel (level + 1) (row[level := fibsOffsets ! (level - 1)]))"
        using "1.IH"(1) [OF True inr refl le chk] "1.prems" by simp
      then show ?thesis using True inr le chk
        by (subst head_loop.simps) (simp add: Let_def head_row_set)
    next
      case gt: False
      have "head_loop numKeys mLevel (level + 1) row = Inr (head_row numKeys mLevel (level + 1) row)"
        using "1.IH"(2) [OF True inr refl gt] "1.prems" by simp
      then show ?thesis using True inr gt
        by (subst head_loop.simps) (simp add: Let_def head_row_skip)
    qed
  qed
qed

lemma buildPointers_char:
  "buildPointers zsl =
     Inr (zsl\<lparr>maxLevel := fib_level (length (keys zsl)),
              next_ptrs :=
                (rank_rows (length (keys zsl)) (fib_level (length (keys zsl))) 1
                   (replicate (length (keys zsl) + 1) (replicate (fib_level (length (keys zsl)) + 1) 0)))
                [0 := head_row (length (keys zsl)) (fib_level (length (keys zsl))) 1
                        (replicate (fib_level (length (keys zsl)) + 1) 0)]\<rparr>)"
proof -
  let ?n = "length (keys zsl)"
  let ?m = "fib_level ?n"
  have "rank_loop ?n ?m 1 (replicate (?n + 1) (replicate (?m + 1) 0))
        = Inr (rank_rows ?n ?m 1 (replicate (?n + 1) (replicate (?m + 1) 0)))"
    by (rule rank_loop_char) (simp_all add: fib_level_le)
  moreover have "head_loop ?n ?m 1 (replicate (?m + 1) 0) = Inr (head_row ?n ?m 1 (replicate (?m + 1) 0))"
    by (rule head_loop_char) (simp_all add: fib_level_le)
  ultimately show ?thesis
    by (simp add: buildPointers_def Let_def fib_level_def [symmetric] del: replicate.simps)
qed



lemma zeckendorf_terms_fib_level:
  assumes "r \<le> n"
  shows "zeckendorf_terms r = zeckendorf (fib_level n) r"
  unfolding zeckendorf_terms_def
proof (rule zeckendorf_bound_irrelevant)
  show "fib_level n \<le> length fibsOffsets" by (rule fib_level_le)
next
  fix i assume "fib_level n \<le> i" "i < length fibsOffsets"
  then have "n < fibsOffsets ! i" by (rule fib_level_above)
  with assms show "r < fibsOffsets ! i" by simp
qed

lemma fib_level_iff:
  "i < length fibsOffsets \<Longrightarrow> i < fib_level n \<longleftrightarrow> fibsOffsets ! i \<le> n"
  using fib_level_below [of i n] fib_level_above [of n i] by (cases "i < fib_level n") auto

lemma rank_rows_length [simp]: "length (rank_rows n m rank nxt) = length nxt"
  by (simp add: rank_rows_def)

lemma rank_rows_nth:
  "r < length nxt \<Longrightarrow>
   rank_rows n m rank nxt ! r
     = (if rank \<le> r \<and> r \<le> n then zeck_row n r (zeckendorf m r) (nxt ! r) else nxt ! r)"
  by (simp add: rank_rows_def)

lemma head_row_length [simp]: "length (head_row n m level row) = length row"
  by (simp add: head_row_def)

lemma head_row_nth:
  "L < length row \<Longrightarrow>
   head_row n m level row ! L
     = (if level \<le> L \<and> L \<le> m \<and> fibsOffsets ! (L - 1) \<le> n then fibsOffsets ! (L - 1) else row ! L)"
  by (simp add: head_row_def)

lemma zeck_row_nth:
  "L < length row \<Longrightarrow>
   zeck_row n rank ts row ! L
     = (if 1 \<le> L \<and> (L - 1) \<in> set ts \<and> rank + fibsOffsets ! (L - 1) \<le> n
        then rank + fibsOffsets ! (L - 1) else row ! L)"
  by (simp add: zeck_row_def)

subsection \<open>The constructors\<close>

lemma chunks_Nil [simp]: "chunks b [] = []"
  by (subst chunks.simps) simp

lemma chunks_Cons: "xs \<noteq> [] \<Longrightarrow> 0 < b \<Longrightarrow> chunks b xs = take b xs # chunks b (drop b xs)"
  by (subst chunks.simps) simp

lemma concat_chunks: "0 < b \<Longrightarrow> concat (chunks b xs) = xs"
proof (induction b xs rule: chunks.induct)
  case (1 b xs)
  then show ?case by (cases "xs = []") (simp_all add: chunks_Cons)
qed

lemma chunks_nonempty: "0 < b \<Longrightarrow> c \<in> set (chunks b xs) \<Longrightarrow> c \<noteq> [] \<and> length c \<le> b"
proof (induction b xs rule: chunks.induct)
  case (1 b xs)
  then show ?case by (cases "xs = []") (auto simp add: chunks_Cons)
qed

lemma chunks_butlast: "0 < b \<Longrightarrow> c \<in> set (butlast (chunks b xs)) \<Longrightarrow> length c = b"
proof (induction b xs rule: chunks.induct)
  case (1 b xs)
  show ?case
  proof (cases "xs = []")
    case True
    with "1.prems" show ?thesis by simp
  next
    case False
    show ?thesis
    proof (cases "chunks b (drop b xs) = []")
      case True
      with "1.prems" False show ?thesis by (simp add: chunks_Cons)
    next
      case ne: False
      then have "drop b xs \<noteq> []" by auto
      then have "length (take b xs) = b" by simp
      with "1.prems" False ne "1.IH" show ?thesis
        by (auto simp add: chunks_Cons)
    qed
  qed
qed

lemma partition_loop_char:
  "0 < b \<Longrightarrow> partition_loop ks b i blks = Some (blks @ chunks b (drop i ks))"
proof (induction "length ks - i" arbitrary: i blks rule: less_induct)
  case less
  show ?case
  proof (cases "i < length ks")
    case False
    then show ?thesis by (subst partition_loop.simps) simp
  next
    case True
    have tk: "take (min (i + b) (length ks) - i) (drop i ks) = take b (drop i ks)"
      using True by (cases "i + b \<le> length ks") (simp_all add: min_def)
    have "partition_loop ks b (i + b) (blks @ [take b (drop i ks)])
          = Some ((blks @ [take b (drop i ks)]) @ chunks b (drop (i + b) ks))"
      using less.prems True by (intro less.hyps) simp_all
    moreover have "chunks b (drop i ks) = take b (drop i ks) # chunks b (drop (i + b) ks)"
      using True less.prems by (simp add: chunks_Cons add.commute)
    ultimately show ?thesis using True
      by (subst partition_loop.simps) (simp add: Let_def tk)
  qed
qed

lemma block_heads_nonempty:
  "\<forall>c \<in> set blks. c \<noteq> [] \<Longrightarrow> block_heads blks = Inr (map hd blks)"
  by (induction blks) (auto split: list.splits)

lemma NewBlockedZSL_char:
  "0 < b \<Longrightarrow>
   NewBlockedZSL ks b
     = Some (sort ks, Inr \<lparr>blocks = chunks b (sort ks), heads = map hd (chunks b (sort ks)), B = b\<rparr>)"
  using chunks_nonempty [of b _ "sort ks"]
  by (simp add: NewBlockedZSL_def sort_Ints_def Let_def partition_loop_char block_heads_nonempty)

lemma static_dedupe_loop_char:
  "static_dedupe_loop ks i prev u
     = u @ (if i = 0 then remdups_adj ks else tl (remdups_adj (prev # ks)))"
proof (induction ks arbitrary: i prev u)
  case Nil
  then show ?case by simp
next
  case (Cons k ks)
  have hd_tl: "remdups_adj (k # ks) = k # tl (remdups_adj (k # ks))"
    by (cases ks) auto
  show ?case using hd_tl by (auto simp add: Cons.IH)
qed

lemma NewStaticZSL_char:
  "\<exists>zsl. NewStaticZSL ks = (sort ks, Inr zsl) \<and> keys zsl = remdups_adj (sort ks)"
proof -
  show ?thesis
    by (simp add: NewStaticZSL_def sort_Ints_def Let_def static_dedupe_loop_char buildPointers_char)
qed

subsection \<open>Insert and Delete on the blocked engine\<close>

lemma sort_Search_loop_bounds:
  "i \<le> j \<Longrightarrow> i \<le> sort_Search_loop f i j \<and> sort_Search_loop f i j \<le> j"
proof (induction f i j rule: sort_Search_loop.induct)
  case (1 f i j)
  show ?case
  proof (cases "i < j")
    case False
    with "1.prems" show ?thesis by (subst sort_Search_loop.simps, subst (2) sort_Search_loop.simps) simp
  next
    case True
    let ?h = "(i + j) div 2"
    have h: "i \<le> ?h" "?h < j" using True by simp_all
    show ?thesis
    proof (cases "f ?h")
      case True
      with "1.IH"(2) [OF \<open>i < j\<close> refl] h \<open>i < j\<close> show ?thesis
        by (subst sort_Search_loop.simps, subst (2) sort_Search_loop.simps) (simp add: Let_def)
    next
      case False
      with "1.IH"(1) [OF \<open>i < j\<close> refl] h \<open>i < j\<close> show ?thesis
        by (subst sort_Search_loop.simps, subst (2) sort_Search_loop.simps) (simp add: Let_def)
    qed
  qed
qed

lemma sort_Search_le: "sort_Search n f \<le> n"
  using sort_Search_loop_bounds [of 0 n f] by (simp add: sort_Search_def)

lemma sort_SearchInts_le: "sort_SearchInts a x \<le> length a"
  by (simp add: sort_SearchInts_def sort_Search_le)

lemma index_range_prefix: "hi \<le> length xs \<Longrightarrow> index_range xs 0 hi = Inr (take hi xs)"
  by (simp add: index_range_def)

lemma index_range_suffix: "index_range xs lo (length xs) = Inr (drop lo xs)"
  by (simp add: index_range_def)

lemma first_elem_nonempty: "xs \<noteq> [] \<Longrightarrow> first_elem xs = Inr (hd xs)"
  by (cases xs) (simp_all add: first_elem_def)

lemma blocked_Insert_empty:
  "blocks bz = [] \<Longrightarrow> blocked_Insert bz key = Inr (bz\<lparr>blocks := [[key]], heads := [key]\<rparr>)"
  by (simp add: blocked_Insert_def)

lemma int64_wrap_id: "- (2 ^ 63) \<le> x \<Longrightarrow> x < 2 ^ 63 \<Longrightarrow> int64_wrap x = x"
  by (simp add: int64_wrap_def)

lemma double_B_no_wrap:
  "b < 2 ^ 62 \<Longrightarrow> (int64_wrap (2 * int b) < int n) = (2 * b < n)"
proof -
  assume "b < 2 ^ 62"
  then have "int b < 2 ^ 62" by (metis of_nat_less_iff of_nat_numeral of_nat_power)
  then have "int64_wrap (2 * int b) = int (2 * b)" by (simp add: int64_wrap_id)
  then show ?thesis by (simp only: of_nat_less_iff)
qed

lemma blocked_Insert_shape:
  fixes bz :: BlockedZSL and key :: int
  assumes len: "length (heads bz) = length (blocks bz)" and ne: "blocks bz \<noteq> []"
      and b: "1 \<le> B bz" and b62: "B bz < 2 ^ 62"
  defines "idx \<equiv> sort_Search (length (heads bz)) (\<lambda>i. key < heads bz ! i) - Suc 0"
  defines "cur \<equiv> blocks bz ! idx"
  defines "pos \<equiv> sort_SearchInts cur key"
  defines "cur' \<equiv> take pos cur @ [key] @ drop pos cur"
  shows "idx < length (blocks bz)"
    and "blocked_Insert bz key =
          Inr (if pos < length cur \<and> cur ! pos = key then bz
               else if 2 * B bz < length cur'
               then bz\<lparr>blocks := take idx (blocks bz) @ take (B bz) cur' # drop (B bz) cur'
                                   # drop (Suc idx) (blocks bz),
                        heads := take idx (heads bz) @ hd (take (B bz) cur') # hd (drop (B bz) cur')
                                   # drop (Suc idx) (heads bz)\<rparr>
               else bz\<lparr>blocks := take idx (blocks bz) @ cur' # drop (Suc idx) (blocks bz),
                        heads := (heads bz)[idx := hd cur']\<rparr>)"
proof -
  let ?t = "sort_Search (length (heads bz)) (\<lambda>i. key < heads bz ! i)"
  have t: "?t \<le> length (blocks bz)" using sort_Search_le [of "length (heads bz)"] len by simp
  have n0: "0 < length (blocks bz)" using ne by simp
  show idx: "idx < length (blocks bz)" using t n0 unfolding idx_def by arith
  have clamp: "(if ?t = 0 then 0 else if length (blocks bz) \<le> ?t - Suc 0
                then length (blocks bz) - Suc 0 else ?t - Suc 0) = ?t - Suc 0"
    using t n0 by arith
  have idxh: "idx < length (heads bz)" using idx len by simp
  have ir1: "index_range (heads bz) 0 idx = Inr (take idx (heads bz))"
    using idxh by (simp add: index_range_prefix)
  have ir2: "index_range (heads bz) (Suc idx) (length (blocks bz)) = Inr (drop (Suc idx) (heads bz))"
    using index_range_suffix [of "heads bz" "Suc idx"] len by simp
  have unfold: "blocked_Insert bz key =
    (if pos < length cur \<and> cur ! pos = key then Inr bz
     else if 2 * B bz < length cur'
          then if length cur' < B bz then Inl SliceBoundsOutOfRange
               else case index_range (heads bz) 0 idx of Inl x \<Rightarrow> Inl x
               | Inr headsBefore \<Rightarrow>
                   case first_elem (take (B bz) cur') of
                   Inl x \<Rightarrow> Inl x
                   | Inr leftHead \<Rightarrow>
                       case first_elem (drop (B bz) cur') of
                       Inl x \<Rightarrow> Inl x
                       | Inr rightHead \<Rightarrow>
                           case index_range (heads bz) (idx + Suc 0) (length (blocks bz)) of
                           Inl x \<Rightarrow> Inl x
                           | Inr headsAfter \<Rightarrow>
                               Inr (bz\<lparr>blocks := take idx ((blocks bz)[idx := cur']) @
                                        [take (B bz) cur', drop (B bz) cur'] @
                                        drop (idx + Suc 0) ((blocks bz)[idx := cur']),
                                      heads := headsBefore @ [leftHead, rightHead] @ headsAfter\<rparr>)
          else if idx < length (heads bz)
               then Inr (bz\<lparr>blocks := (blocks bz)[idx := cur'],
                           heads := (heads bz)[idx := hd cur']\<rparr>)
               else Inl IndexOutOfRange)"
    using ne unfolding blocked_Insert_def Let_def
    apply (simp only: clamp list.size length_0_conv if_False One_nat_def
             double_B_no_wrap [OF b62])
    apply (fold cur_def idx_def)
    apply (fold pos_def)
    apply (fold cur'_def)
    apply (rule refl)
    done
  show "blocked_Insert bz key =
          Inr (if pos < length cur \<and> cur ! pos = key then bz
               else if 2 * B bz < length cur'
               then bz\<lparr>blocks := take idx (blocks bz) @ take (B bz) cur' # drop (B bz) cur'
                                   # drop (Suc idx) (blocks bz),
                        heads := take idx (heads bz) @ hd (take (B bz) cur') # hd (drop (B bz) cur')
                                   # drop (Suc idx) (heads bz)\<rparr>
               else bz\<lparr>blocks := take idx (blocks bz) @ cur' # drop (Suc idx) (blocks bz),
                        heads := (heads bz)[idx := hd cur']\<rparr>)"
  proof (cases "2 * B bz < length cur'")
    case split: True
    have l: "take (B bz) cur' \<noteq> []" using split b by auto
    have r: "drop (B bz) cur' \<noteq> []" using split by auto
    have fl: "first_elem (take (B bz) cur') = Inr (hd (take (B bz) cur'))"
      by (rule first_elem_nonempty [OF l])
    have fr: "first_elem (drop (B bz) cur') = Inr (hd (drop (B bz) cur'))"
      by (rule first_elem_nonempty [OF r])
    have inb: "\<not> length cur' < B bz" using split by simp
    show ?thesis using split inb
      by (simp add: unfold ir1 ir2 fl fr)
  next
    case nosplit: False
    show ?thesis using nosplit idx idxh
      by (simp add: unfold upd_conv_take_nth_drop)
  qed
qed


lemma first_elem_Nil: "first_elem [] = Inl IndexOutOfRange"
  by (simp add: first_elem_def)

lemma blocked_Delete_shape:
  fixes bz :: BlockedZSL and key :: int
  assumes len: "length (heads bz) = length (blocks bz)"
  defines "t \<equiv> sort_Search (length (heads bz)) (\<lambda>i. key < heads bz ! i)"
  defines "idx \<equiv> t - Suc 0"
  defines "cur \<equiv> blocks bz ! idx"
  defines "pos \<equiv> sort_SearchInts cur key"
  defines "cur' \<equiv> take pos cur @ drop (pos + Suc 0) cur"
  defines "blocks' \<equiv> (blocks bz)[idx := cur']"
  defines "m \<equiv> (if idx = length (blocks bz) - Suc 0 then idx - Suc 0 else idx)"
  defines "merged \<equiv> blocks' ! m @ blocks' ! (m + Suc 0)"
  shows "blocked_Delete bz key =
          (if t = 0 \<or> length cur \<le> pos \<or> cur ! pos \<noteq> key then Inr (False, bz)
           else if length cur' < B bz div 2 \<and> Suc 0 < length (blocks bz)
           then (if merged = [] then Inl IndexOutOfRange
                 else Inr (True, bz\<lparr>blocks := take m blocks' @ merged # drop (m + 2) blocks',
                                     heads := take m (heads bz) @ hd merged # drop (m + 2) (heads bz)\<rparr>))
           else Inr (True, bz\<lparr>blocks := blocks',
                               heads := (if cur' = [] then heads bz else (heads bz)[idx := hd cur'])\<rparr>))"
    and "t \<noteq> 0 \<Longrightarrow> idx < length (blocks bz)"
proof -
  have t: "t \<le> length (blocks bz)"
    using sort_Search_le [of "length (heads bz)"] len by (simp add: t_def)
  show idx: "idx < length (blocks bz)" if "t \<noteq> 0"
    using t that unfolding idx_def by arith
  have guard: "(t = 0 \<or> length (blocks bz) \<le> t - Suc 0) = (t = 0)"
    using t by arith
  have unfold: "blocked_Delete bz key =
    (if t = 0 then Inr (False, bz)
     else if length cur \<le> pos \<or> cur ! pos \<noteq> key then Inr (False, bz)
          else if length cur' < B bz div 2 \<and> Suc 0 < length (blocks bz)
               then case index_range (heads bz) 0 m of Inl x \<Rightarrow> Inl x
                    | Inr headsBefore \<Rightarrow>
                        case first_elem merged of Inl x \<Rightarrow> Inl x
                        | Inr mergedHead \<Rightarrow>
                            case index_range (heads bz) (m + 2) (length (blocks bz)) of
                              Inl x \<Rightarrow> Inl x
                            | Inr headsAfter \<Rightarrow>
                                Inr (True, bz\<lparr>blocks := take m blocks' @ [merged] @ drop (m + 2) blocks',
                                                heads := headsBefore @ [mergedHead] @ headsAfter\<rparr>)
               else if 0 < length cur'
                    then Inr (True, bz\<lparr>blocks := blocks', heads := (heads bz)[idx := hd cur']\<rparr>)
                    else Inr (True, bz\<lparr>blocks := blocks'\<rparr>))"
    unfolding blocked_Delete_def Let_def
    apply (fold t_def)
    apply (simp only: guard One_nat_def)
    apply (fold idx_def)
    apply (fold cur_def)
    apply (fold pos_def)
    apply (fold cur'_def)
    apply (fold blocks'_def)
    apply (fold m_def)
    apply (fold merged_def)
    apply (rule refl)
    done
  have m: "m \<le> length (heads bz)" if "t \<noteq> 0"
    using idx [OF that] len unfolding m_def by (simp split: if_splits)
  have ir1: "index_range (heads bz) 0 m = Inr (take m (heads bz))" if "t \<noteq> 0"
    using m [OF that] by (simp add: index_range_prefix)
  have ir2: "index_range (heads bz) (Suc (Suc m)) (length (blocks bz)) = Inr (drop (Suc (Suc m)) (heads bz))"
    using index_range_suffix [of "heads bz" "Suc (Suc m)"] len by simp
  show "blocked_Delete bz key =
          (if t = 0 \<or> length cur \<le> pos \<or> cur ! pos \<noteq> key then Inr (False, bz)
           else if length cur' < B bz div 2 \<and> Suc 0 < length (blocks bz)
           then (if merged = [] then Inl IndexOutOfRange
                 else Inr (True, bz\<lparr>blocks := take m blocks' @ merged # drop (m + 2) blocks',
                                     heads := take m (heads bz) @ hd merged # drop (m + 2) (heads bz)\<rparr>))
           else Inr (True, bz\<lparr>blocks := blocks',
                               heads := (if cur' = [] then heads bz else (heads bz)[idx := hd cur'])\<rparr>))"
  proof (cases "t = 0")
    case True
    then show ?thesis by (simp add: unfold)
  next
    case False
    show ?thesis
    proof (cases "merged = []")
      case True
      then show ?thesis using False
        by (simp add: unfold ir1 ir2 first_elem_Nil)
    next
      case ne: False
      then show ?thesis using False
        by (simp add: unfold ir1 ir2 first_elem_nonempty)
    qed
  qed
qed


lemma split_at_index:
  assumes "idx < length bs"
  obtains pre post where "bs = pre @ bs ! idx # post" "length pre = idx"
proof
  show "bs = take idx bs @ bs ! idx # drop (Suc idx) bs"
    using assms by (rule id_take_nth_drop)
  show "length (take idx bs) = idx" using assms by simp
qed

lemma blocked_Insert_size_inv:
  assumes inv: "size_inv bz"
  shows "\<exists>bz'. blocked_Insert bz key = Inr bz' \<and> size_inv bz' \<and> B bz' = B bz
               \<and> (upper_inv bz \<longrightarrow> upper_inv bz')"
proof (cases "blocks bz = []")
  case True
  then show ?thesis using inv
    by (simp add: blocked_Insert_empty size_inv_def upper_inv_def)
next
  case ne: False
  have len: "length (heads bz) = length (blocks bz)" and b: "1 \<le> B bz"
    and b62: "B bz < 2 ^ 62"
    using inv by (simp_all add: size_inv_def)
  define idx where "idx = sort_Search (length (heads bz)) (\<lambda>i. key < heads bz ! i) - Suc 0"
  define cur where "cur = blocks bz ! idx"
  define pos where "pos = sort_SearchInts cur key"
  define cur' where "cur' = take pos cur @ [key] @ drop pos cur"
  note shape = blocked_Insert_shape [OF len ne b b62, of key, folded idx_def, folded cur_def,
      folded pos_def, folded cur'_def]
  have idx: "idx < length (blocks bz)" by (rule shape(1))
  obtain pre post where bs: "blocks bz = pre @ cur # post" and lp: "length pre = idx"
    using split_at_index [OF idx] unfolding cur_def by blast
  have tk: "take idx (blocks bz) = pre" and dr: "drop (Suc idx) (blocks bz) = post"
    using bs lp by simp_all
  have pos: "pos \<le> length cur" by (simp add: pos_def sort_SearchInts_le)
  have lc: "length cur' = Suc (length cur)" using pos by (simp add: cur'_def)
  show ?thesis
  proof (cases "pos < length cur \<and> cur ! pos = key")
    case True
    then show ?thesis using inv by (simp add: shape(2))
  next
    case False
    show ?thesis
    proof (cases "2 * B bz < length cur'")
      case split: True
      let ?bz' = "bz\<lparr>blocks := pre @ take (B bz) cur' # drop (B bz) cur' # post,
                     heads := take idx (heads bz) @ hd (take (B bz) cur') # hd (drop (B bz) cur')
                                   # drop (Suc idx) (heads bz)\<rparr>"
      have res: "blocked_Insert bz key = Inr ?bz'"
        using False split by (auto simp add: shape(2) tk dr)
      have hl: "length (heads ?bz') = length (blocks ?bz')"
        using len idx lp bs by simp
      have "size_inv ?bz'"
        using inv split hl unfolding size_inv_def bs
        by (auto simp add: butlast_append)
      moreover have "upper_inv bz \<longrightarrow> upper_inv ?bz'"
        using split lc b unfolding upper_inv_def bs by auto
      ultimately show ?thesis using res by simp
    next
      case nosplit: False
      let ?bz' = "bz\<lparr>blocks := pre @ cur' # post, heads := (heads bz)[idx := hd cur']\<rparr>"
      have res: "blocked_Insert bz key = Inr ?bz'"
        using False nosplit by (auto simp add: shape(2) tk dr)
      have "size_inv ?bz'"
        using inv lc unfolding size_inv_def bs
        by (auto simp add: butlast_append)
      moreover have "upper_inv bz \<longrightarrow> upper_inv ?bz'"
        using nosplit unfolding upper_inv_def bs by auto
      ultimately show ?thesis using res by simp
    qed
  qed
qed


lemma blocked_Delete_size_inv:
  assumes inv: "size_inv bz"
  shows "\<exists>found bz'. blocked_Delete bz key = Inr (found, bz') \<and> size_inv bz' \<and> B bz' = B bz"
proof -
  have len: "length (heads bz) = length (blocks bz)" and b: "1 \<le> B bz"
    using inv by (simp_all add: size_inv_def)
  define t where "t = sort_Search (length (heads bz)) (\<lambda>i. key < heads bz ! i)"
  define idx where "idx = t - Suc 0"
  define cur where "cur = blocks bz ! idx"
  define pos where "pos = sort_SearchInts cur key"
  define cur' where "cur' = take pos cur @ drop (pos + Suc 0) cur"
  define blocks' where "blocks' = (blocks bz)[idx := cur']"
  define m where "m = (if idx = length (blocks bz) - Suc 0 then idx - Suc 0 else idx)"
  define merged where "merged = blocks' ! m @ blocks' ! (m + Suc 0)"
  note shape = blocked_Delete_shape [OF len, of key, folded t_def, folded idx_def, folded cur_def,
      folded pos_def, folded cur'_def, folded blocks'_def, folded m_def, folded merged_def]
  show ?thesis
  proof (cases "t = 0 \<or> length cur \<le> pos \<or> cur ! pos \<noteq> key")
    case True
    then have "blocked_Delete bz key = Inr (False, bz)" by (simp only: shape(1) if_True)
    then show ?thesis using inv by auto
  next
    case found: False
    then have t0: "t \<noteq> 0" by simp
    have idx: "idx < length (blocks bz)" using shape(2) [OF t0] .
    obtain pre post where bs: "blocks bz = pre @ cur # post" and lp: "length pre = idx"
      using split_at_index [OF idx] unfolding cur_def by blast
    have bs': "blocks' = pre @ cur' # post"
      unfolding blocks'_def bs lp [symmetric] by simp
    have hidx: "idx < length (heads bz)" using idx len by simp
    show ?thesis
    proof (cases "length cur' < B bz div 2 \<and> Suc 0 < length (blocks bz)")
      case nomerge: False
      let ?bz' = "bz\<lparr>blocks := blocks',
                     heads := (if cur' = [] then heads bz else (heads bz)[idx := hd cur'])\<rparr>"
      have res: "blocked_Delete bz key = Inr (True, ?bz')"
        using found nomerge by (simp only: shape(1) if_False)
      have "size_inv ?bz'"
        using inv nomerge unfolding size_inv_def bs bs'
        by (auto simp add: butlast_append)
      then show ?thesis using res by auto
    next
      case merge: True
      then have d: "1 \<le> B bz div 2" and n2: "Suc 0 < length (blocks bz)" by simp_all
      then have b2: "2 \<le> B bz" by simp
      show ?thesis
      proof (cases "post = []")
        case last: True
        then have "pre \<noteq> []" using n2 bs by auto
        then obtain pre' pb where pre: "pre = pre' @ [pb]" by (metis rev_exhaust)
        have idx_last: "idx = length (blocks bz) - Suc 0" using bs lp last by simp
        have lp': "length pre' = idx - Suc 0" using lp pre by simp
        have m: "m = length pre'" using idx_last lp' by (simp add: m_def)
        have bs2: "blocks' = pre' @ pb # cur' # []" using bs' pre last by simp
        have mg: "merged = pb @ cur'" unfolding merged_def m bs2 by (simp add: nth_append)
        have pbok: "B bz div 2 \<le> length pb"
          using inv unfolding size_inv_def bs pre last by (simp add: butlast_append)
        then have mne: "merged \<noteq> []" using d mg by auto
        have tk: "take m blocks' = pre'" and dr: "drop (Suc (Suc m)) blocks' = []"
          unfolding m bs2 by simp_all
        let ?bz' = "bz\<lparr>blocks := pre' @ [merged],
                       heads := take m (heads bz) @ hd merged # drop (m + 2) (heads bz)\<rparr>"
        have res: "blocked_Delete bz key = Inr (True, ?bz')"
          using found merge mne by (simp add: shape(1) tk dr)
        have hl: "length (heads ?bz') = length (blocks ?bz')"
          using len m bs pre last by simp
        have "size_inv ?bz'"
          using inv mne hl unfolding size_inv_def bs pre last
          by (auto simp add: butlast_append)
        then show ?thesis using res by auto
      next
        case notlast: False
        then obtain nb post' where post: "post = nb # post'" by (cases post) auto
        have "idx \<noteq> length (blocks bz) - Suc 0" using bs lp post by simp
        then have m: "m = length pre" using lp by (simp add: m_def)
        have bs2: "blocks' = pre @ cur' # nb # post'" using bs' post by simp
        have mg: "merged = cur' @ nb" unfolding merged_def m bs2 by (simp add: nth_append)
        have nbne: "nb \<noteq> []"
        proof (cases "post' = []")
          case True
          then show ?thesis using inv b2 unfolding size_inv_def bs post by simp
        next
          case False
          then have "B bz div 2 \<le> length nb"
            using inv unfolding size_inv_def bs post by (simp add: butlast_append)
          then show ?thesis using d by auto
        qed
        then have mne: "merged \<noteq> []" using mg by simp
        have tk: "take m blocks' = pre" and dr: "drop (Suc (Suc m)) blocks' = post'"
          unfolding m bs2 by simp_all
        let ?bz' = "bz\<lparr>blocks := pre @ merged # post',
                       heads := take m (heads bz) @ hd merged # drop (m + 2) (heads bz)\<rparr>"
        have res: "blocked_Delete bz key = Inr (True, ?bz')"
          using found merge mne by (simp add: shape(1) tk dr)
        have hl: "length (heads ?bz') = length (blocks ?bz')"
          using len m bs post by simp
        have "size_inv ?bz'"
          using inv mne hl unfolding size_inv_def bs post mg
          by (auto simp add: butlast_append)
        then show ?thesis using res by auto
      qed
    qed
  qed
qed


lemma blocked_run_size_inv:
  "size_inv bz \<Longrightarrow>
   \<exists>bz'. blocked_run bz ops = Inr bz' \<and> size_inv bz' \<and> B bz' = B bz
         \<and> ((\<forall>x \<in> set ops. is_Insert x) \<and> upper_inv bz \<longrightarrow> upper_inv bz')"
proof (induction ops arbitrary: bz)
  case Nil
  then show ?case by simp
next
  case (Cons x xs)
  show ?case
  proof (cases x)
    case (Insert key)
    obtain bz1 where s1: "blocked_Insert bz key = Inr bz1" "size_inv bz1" "B bz1 = B bz"
        "upper_inv bz \<longrightarrow> upper_inv bz1"
      using blocked_Insert_size_inv [OF Cons.prems, of key] by blast
    obtain bz' where s2: "blocked_run bz1 xs = Inr bz'" "size_inv bz'" "B bz' = B bz1"
        "(\<forall>x \<in> set xs. is_Insert x) \<and> upper_inv bz1 \<longrightarrow> upper_inv bz'"
      using Cons.IH [OF s1(2)] by blast
    show ?thesis using Insert s1 s2 by simp
  next
    case (Delete key)
    obtain found bz1 where s1: "blocked_Delete bz key = Inr (found, bz1)" "size_inv bz1" "B bz1 = B bz"
      using blocked_Delete_size_inv [OF Cons.prems, of key] by blast
    obtain bz' where s2: "blocked_run bz1 xs = Inr bz'" "size_inv bz'" "B bz' = B bz1"
      using Cons.IH [OF s1(2)] by blast
    show ?thesis using Delete s1 s2 by simp
  qed
qed

lemma NewBlockedZSL_size_inv:
  assumes "1 \<le> b" "b < 2 ^ 62"
  shows "\<exists>bz. NewBlockedZSL ks b = Some (sort ks, Inr bz) \<and> size_inv bz \<and> upper_inv bz \<and> B bz = b"
proof -
  let ?bz = "\<lparr>blocks = chunks b (sort ks), heads = map hd (chunks b (sort ks)), B = b\<rparr>"
  have pos: "0 < b" using assms by simp
  have new: "NewBlockedZSL ks b = Some (sort ks, Inr ?bz)"
    using pos by (rule NewBlockedZSL_char)
  have mid: "\<forall>blk \<in> set (butlast (chunks b (sort ks))). b div 2 \<le> length blk"
    using chunks_butlast [OF pos] by fastforce
  have lst: "chunks b (sort ks) \<noteq> [] \<longrightarrow> last (chunks b (sort ks)) \<noteq> []"
    using chunks_nonempty [OF pos, of "last (chunks b (sort ks))" "sort ks"] by simp
  have up: "\<forall>blk \<in> set (chunks b (sort ks)). length blk \<le> 2 * b"
    using chunks_nonempty [OF pos] by fastforce
  have "size_inv ?bz" using assms mid lst by (auto simp add: size_inv_def)
  moreover have "upper_inv ?bz" using up by (simp add: upper_inv_def)
  ultimately show ?thesis using new by simp
qed

subsection \<open>Binary search on sorted slices, and the static engine\<close>

lemma sort_Search_loop_least:
  "\<forall>a b. a \<le> b \<and> b < n \<and> f a \<longrightarrow> f b \<Longrightarrow> i \<le> j \<Longrightarrow> j \<le> n \<Longrightarrow>
         (\<forall>k. i \<le> k \<and> k < sort_Search_loop f i j \<longrightarrow> \<not> f k)
         \<and> (sort_Search_loop f i j < j \<longrightarrow> f (sort_Search_loop f i j))"
proof (induction f i j rule: sort_Search_loop.induct)
  case (1 f i j)
  note mono = "1.prems"(1)
  show ?case
  proof (cases "i < j")
    case False
    then have "sort_Search_loop f i j = i" by (subst sort_Search_loop.simps) simp
    then show ?thesis using False by auto
  next
    case True
    let ?h = "(i + j) div 2"
    have h: "i \<le> ?h" "?h < j" using True by simp_all
    show ?thesis
    proof (cases "f ?h")
      case fh: True
      have eq: "sort_Search_loop f i j = sort_Search_loop f i ?h"
        using True fh by (subst sort_Search_loop.simps) (simp add: Let_def)
      have ih: "(\<forall>k. i \<le> k \<and> k < sort_Search_loop f i ?h \<longrightarrow> \<not> f k)
                \<and> (sort_Search_loop f i ?h < ?h \<longrightarrow> f (sort_Search_loop f i ?h))"
        using "1.IH"(2) [OF True refl _ mono] fh h "1.prems" by simp
      have le: "sort_Search_loop f i ?h \<le> ?h"
        using sort_Search_loop_bounds [of i ?h f] h by simp
      show ?thesis
      proof (cases "sort_Search_loop f i ?h = ?h")
        case True
        then show ?thesis using ih fh eq by simp
      next
        case False
        with le have "sort_Search_loop f i ?h < ?h" by simp
        then show ?thesis using ih eq by simp
      qed
    next
      case nfh: False
      have eq: "sort_Search_loop f i j = sort_Search_loop f (?h + 1) j"
        using True nfh by (subst sort_Search_loop.simps) (simp add: Let_def)
      have ih: "(\<forall>k. ?h + 1 \<le> k \<and> k < sort_Search_loop f (?h + 1) j \<longrightarrow> \<not> f k)
                \<and> (sort_Search_loop f (?h + 1) j < j \<longrightarrow> f (sort_Search_loop f (?h + 1) j))"
        using "1.IH"(1) [OF True refl _ mono] nfh h "1.prems" by simp
      have low: "\<not> f k" if "k \<le> ?h" for k
      proof
        assume "f k"
        then have "f ?h" using mono that h "1.prems" by (meson le_trans less_le_trans)
        with nfh show False by simp
      qed
      have "\<not> f k" if "i \<le> k" "k < sort_Search_loop f (?h + 1) j" for k
        using that low [of k] ih by (cases "k \<le> ?h") auto
      then show ?thesis using ih eq by simp
    qed
  qed
qed

lemma sort_Search_least:
  assumes "\<forall>a b. a \<le> b \<and> b < n \<and> f a \<longrightarrow> f b"
  shows "\<forall>k < sort_Search n f. \<not> f k" and "sort_Search n f < n \<Longrightarrow> f (sort_Search n f)"
  using sort_Search_loop_least [OF assms, of 0 n] by (simp_all add: sort_Search_def)

lemma sort_SearchInts_takeWhile:
  assumes "sorted a"
  shows "sort_SearchInts a x = length (takeWhile (\<lambda>y. y < x) a)"
proof -
  let ?r = "sort_SearchInts a x"
  have mono: "\<forall>i j. i \<le> j \<and> j < length a \<and> x \<le> a ! i \<longrightarrow> x \<le> a ! j"
    using assms by (metis order_trans sorted_nth_mono)
  have below: "\<forall>k < ?r. \<not> x \<le> a ! k"
    unfolding sort_SearchInts_def using sort_Search_least(1) [OF mono] by simp
  have at: "?r < length a \<Longrightarrow> x \<le> a ! ?r"
    unfolding sort_SearchInts_def using sort_Search_least(2) [OF mono] by simp
  have le: "?r \<le> length a" by (rule sort_SearchInts_le)
  have "takeWhile (\<lambda>y. y < x) a = take ?r a"
  proof (rule takeWhile_eq_take_P_nth)
    show "\<And>i. i < ?r \<Longrightarrow> i < length a \<Longrightarrow> a ! i < x" using below by (simp add: not_le)
    show "?r < length a \<Longrightarrow> \<not> a ! ?r < x" using at by simp
  qed
  then show ?thesis using le by simp
qed


lemma sort_SearchInts_take:
  "sorted a \<Longrightarrow> take (sort_SearchInts a x) a = takeWhile (\<lambda>y. y < x) a"
  unfolding sort_SearchInts_takeWhile by (rule takeWhile_eq_take [symmetric])

lemma sort_SearchInts_drop:
  "sorted a \<Longrightarrow> drop (sort_SearchInts a x) a = dropWhile (\<lambda>y. y < x) a"
  unfolding sort_SearchInts_takeWhile by (rule dropWhile_eq_drop [symmetric])

lemma sort_SearchInts_found:
  assumes "sorted a"
  shows "(sort_SearchInts a x < length a \<and> a ! sort_SearchInts a x = x) \<longleftrightarrow> x \<in> set a"
proof -
  let ?r = "sort_SearchInts a x"
  have split: "a = takeWhile (\<lambda>y. y < x) a @ dropWhile (\<lambda>y. y < x) a" by simp
  have dr: "drop ?r a = dropWhile (\<lambda>y. y < x) a" using assms by (rule sort_SearchInts_drop)
  show ?thesis
  proof
    assume "?r < length a \<and> a ! ?r = x"
    then show "x \<in> set a" by (metis nth_mem)
  next
    assume mem: "x \<in> set a"
    have "x \<notin> set (takeWhile (\<lambda>y. y < x) a)" by (auto dest: set_takeWhileD)
    with mem split have "x \<in> set (dropWhile (\<lambda>y. y < x) a)"
      by (metis Un_iff set_append)
    then have ne: "dropWhile (\<lambda>y. y < x) a \<noteq> []" by (metis empty_iff empty_set)
    then have lt: "?r < length a" using dr by (metis drop_eq_Nil not_le)
    have hd_ge: "x \<le> hd (dropWhile (\<lambda>y. y < x) a)"
      using ne hd_dropWhile [of "\<lambda>y. y < x" a] by (simp add: not_less)
    have "sorted (dropWhile (\<lambda>y. y < x) a)" using assms by (metis sorted_dropWhile)
    then have "\<forall>y \<in> set (dropWhile (\<lambda>y. y < x) a). hd (dropWhile (\<lambda>y. y < x) a) \<le> y"
      using ne by (cases "dropWhile (\<lambda>y. y < x) a") auto
    with \<open>x \<in> set (dropWhile (\<lambda>y. y < x) a)\<close> hd_ge have "hd (dropWhile (\<lambda>y. y < x) a) = x"
      by fastforce
    moreover have "hd (dropWhile (\<lambda>y. y < x) a) = a ! ?r"
      using dr lt by (metis hd_drop_conv_nth)
    ultimately show "?r < length a \<and> a ! ?r = x" using lt by simp
  qed
qed

lemma insort_takeWhile:
  "insort x a = takeWhile (\<lambda>y. y < x) a @ x # dropWhile (\<lambda>y. y < x) a"
  by (induction a) auto

lemma slice_insert_insort:
  "sorted a \<Longrightarrow> take (sort_SearchInts a x) a @ [x] @ drop (sort_SearchInts a x) a = insort x a"
  by (simp add: sort_SearchInts_take sort_SearchInts_drop insort_takeWhile)

lemma slice_delete_remove1:
  assumes "sorted a" "x \<in> set a"
  shows "take (sort_SearchInts a x) a @ drop (sort_SearchInts a x + 1) a = remove1 x a"
proof -
  let ?r = "sort_SearchInts a x"
  have f: "?r < length a" "a ! ?r = x" using sort_SearchInts_found [OF assms(1), of x] assms(2) by simp_all
  have notin: "x \<notin> set (take ?r a)"
    using assms(1) by (auto simp add: sort_SearchInts_take dest: set_takeWhileD)
  have "a = take ?r a @ x # drop (Suc ?r) a" using f by (metis id_take_nth_drop)
  then have "remove1 x a = remove1 x (take ?r a @ x # drop (Suc ?r) a)" by simp
  also have "\<dots> = take ?r a @ drop (Suc ?r) a" using notin by (simp add: remove1_append)
  finally show ?thesis by simp
qed

lemma emit_loop_takeWhile: "emit_loop xs hi out = out @ takeWhile (\<lambda>k. k < hi) xs"
  by (induction xs arbitrary: out) auto

lemma sorted_range_filter:
  "sorted a \<Longrightarrow>
   takeWhile (\<lambda>k. k < hi) (dropWhile (\<lambda>k. k < lo) a) = filter (\<lambda>k. lo \<le> k \<and> k < hi) (a :: int list)"
proof (induction a)
  case Nil
  then show ?case by simp
next
  case (Cons y ys)
  show ?case
  proof (cases "y < lo")
    case True
    then show ?thesis using Cons by simp
  next
    case False
    have ge: "\<forall>z \<in> set ys. lo \<le> z" using Cons.prems False by auto
    have dw: "dropWhile (\<lambda>k. k < lo) ys = ys" using ge by (cases ys) auto
    show ?thesis
    proof (cases "y < hi")
      case True
      then show ?thesis using False Cons dw by simp
    next
      case nlt: False
      then have "\<forall>z \<in> set ys. \<not> z < hi" using Cons.prems by auto
      then have "filter (\<lambda>k. lo \<le> k \<and> k < hi) ys = []" by (simp add: filter_empty_conv)
      then show ?thesis using False nlt by simp
    qed
  qed
qed

lemma static_RangeFunc_filter:
  "sorted (keys zsl) \<Longrightarrow>
   static_RangeFunc zsl lo hi = filter (\<lambda>k. lo \<le> k \<and> k < hi) (keys zsl)"
  by (simp add: static_RangeFunc_def emit_loop_takeWhile sort_SearchInts_drop sorted_range_filter)

lemma buildPointers_keys: "\<exists>zsl'. buildPointers zsl = Inr zsl' \<and> keys zsl' = keys zsl"
  by (simp add: buildPointers_char)

lemma static_Insert_keys:
  assumes "sorted (keys zsl)"
  shows "\<exists>zsl'. static_Insert zsl key = Inr zsl'
           \<and> keys zsl' = (if key \<in> set (keys zsl) then keys zsl else insort key (keys zsl))"
proof (cases "key \<in> set (keys zsl)")
  case True
  then show ?thesis using sort_SearchInts_found [OF assms, of key]
    by (simp add: static_Insert_def)
next
  case False
  then have nf: "\<not> (sort_SearchInts (keys zsl) key < length (keys zsl)
                   \<and> keys zsl ! sort_SearchInts (keys zsl) key = key)"
    using sort_SearchInts_found [OF assms, of key] by simp
  obtain zsl' where "buildPointers (zsl\<lparr>keys := insort key (keys zsl)\<rparr>) = Inr zsl'"
      "keys zsl' = insort key (keys zsl)"
    using buildPointers_keys [of "zsl\<lparr>keys := insort key (keys zsl)\<rparr>"] by auto
  then show ?thesis using False nf slice_insert_insort [OF assms, of key]
    by (auto simp add: static_Insert_def Let_def)
qed

lemma static_Delete_keys:
  assumes "sorted (keys zsl)"
  shows "\<exists>zsl'. static_Delete zsl key = Inr (key \<in> set (keys zsl), zsl')
           \<and> keys zsl' = remove1 key (keys zsl)"
proof (cases "key \<in> set (keys zsl)")
  case False
  then have nf: "\<not> (sort_SearchInts (keys zsl) key < length (keys zsl)
                   \<and> keys zsl ! sort_SearchInts (keys zsl) key = key)"
    using sort_SearchInts_found [OF assms, of key] by simp
  then show ?thesis using False
    by (auto simp add: static_Delete_def Let_def remove1_idem)
next
  case True
  then have f: "sort_SearchInts (keys zsl) key < length (keys zsl)"
      "keys zsl ! sort_SearchInts (keys zsl) key = key"
    using sort_SearchInts_found [OF assms, of key] by simp_all
  obtain zsl' where "buildPointers (zsl\<lparr>keys := remove1 key (keys zsl)\<rparr>) = Inr zsl'"
      "keys zsl' = remove1 key (keys zsl)"
    using buildPointers_keys [of "zsl\<lparr>keys := remove1 key (keys zsl)\<rparr>"] by auto
  then show ?thesis using True f slice_delete_remove1 [OF assms True]
    by (auto simp add: static_Delete_def Let_def)
qed

subsection \<open>Heads and blocks in ascending order\<close>

lemma vblock_nonempty [simp]: "vblock h blk \<noteq> []"
  by (simp add: vblock_def)

lemma hd_vblock: "headed h blk \<Longrightarrow> hd (vblock h blk) = h"
  by (simp add: vblock_def headed_def)

lemma set_vblock: "set (vblock h blk) = (if blk = [] then {h} else set blk)"
  by (simp add: vblock_def)

lemma vblock_self: "blk \<noteq> [] \<Longrightarrow> vblock h blk = blk"
  by (simp add: vblock_def)

lemma virtual_append:
  "length hs = length blks \<Longrightarrow>
   virtual (hs @ hs') (blks @ blks') = virtual hs blks @ virtual hs' blks'"
  by (induction hs blks rule: list_induct2) simp_all

lemma set_concat_virtual:
  "length hs = length blks \<Longrightarrow> set (concat blks) \<subseteq> set (virtual hs blks)"
  by (induction hs blks rule: list_induct2) (auto simp add: set_vblock)

lemma set_heads_virtual:
  "list_all2 headed hs blks \<Longrightarrow> set hs \<subseteq> set (virtual hs blks)"
proof (induction hs blks rule: list_all2_induct)
  case Nil
  then show ?case by simp
next
  case (Cons h hs blk blks)
  have "h \<in> set (vblock h blk)"
    using Cons.hyps(1) by (cases blk) (auto simp add: vblock_def headed_def)
  then show ?case using Cons.IH by auto
qed

lemma set_virtual:
  "set (virtual hs blks) \<subseteq> set hs \<union> set (concat blks)"
  by (induction hs blks rule: virtual.induct) (auto simp add: set_vblock split: if_splits)

lemma sorted_vblock_block:
  "sorted_wrt (<) (vblock h blk) \<Longrightarrow> sorted_wrt (<) blk"
  by (cases "blk = []") (simp_all add: vblock_def)

lemma sorted_virtual_concat:
  "length hs = length blks \<Longrightarrow> sorted_wrt (<) (virtual hs blks) \<Longrightarrow> sorted_wrt (<) (concat blks)"
proof (induction hs blks rule: list_induct2)
  case Nil
  then show ?case by simp
next
  case (Cons h hs blk blks)
  have sub1: "set blk \<subseteq> set (vblock h blk)" by (auto simp add: set_vblock)
  have sub2: "set (concat blks) \<subseteq> set (virtual hs blks)"
    using Cons.hyps by (rule set_concat_virtual)
  from Cons.prems have s: "sorted_wrt (<) (vblock h blk)" "sorted_wrt (<) (virtual hs blks)"
      "\<forall>x \<in> set (vblock h blk). \<forall>y \<in> set (virtual hs blks). x < y"
    by (simp_all add: sorted_wrt_append)
  have "sorted_wrt (<) blk" using s(1) by (rule sorted_vblock_block)
  moreover have "sorted_wrt (<) (concat blks)" using Cons.IH s(2) by simp
  moreover have "\<forall>x \<in> set blk. \<forall>y \<in> set (concat blks). x < y"
    using s(3) sub1 sub2 by blast
  ultimately show ?case by (simp add: sorted_wrt_append)
qed

lemma sorted_virtual_heads:
  "list_all2 headed hs blks \<Longrightarrow> sorted_wrt (<) (virtual hs blks) \<Longrightarrow> sorted_wrt (<) hs"
proof (induction hs blks rule: list_all2_induct)
  case Nil
  then show ?case by simp
next
  case (Cons h hs blk blks)
  have hin: "h \<in> set (vblock h blk)"
    using Cons.hyps(1) by (cases blk) (auto simp add: vblock_def headed_def)
  have sub: "set hs \<subseteq> set (virtual hs blks)"
    using Cons.hyps(2) by (rule set_heads_virtual)
  from Cons.prems have s: "sorted_wrt (<) (virtual hs blks)"
      "\<forall>x \<in> set (vblock h blk). \<forall>y \<in> set (virtual hs blks). x < y"
    by (simp_all add: sorted_wrt_append)
  have "\<forall>y \<in> set hs. h < y" using s(2) hin sub by blast
  then show ?case using Cons.IH s(1) by simp
qed

lemma virtual_lower_bound:
  assumes "list_all2 headed (h # hs) (blk # blks)" "sorted_wrt (<) (virtual (h # hs) (blk # blks))"
  shows "\<forall>x \<in> set (virtual (h # hs) (blk # blks)). h \<le> x"
proof -
  have hd: "hd (vblock h blk) = h" using assms(1) by (simp add: hd_vblock)
  obtain v vs where v: "vblock h blk = v # vs" by (cases "vblock h blk") simp_all
  then have "v = h" using hd by simp
  then have eq: "virtual (h # hs) (blk # blks) = h # (vs @ virtual hs blks)" using v by simp
  have "sorted_wrt (<) (h # (vs @ virtual hs blks))" using assms(2) unfolding eq .
  then have "\<forall>x \<in> set (vs @ virtual hs blks). h < x" by simp
  then have "\<forall>x \<in> set (vs @ virtual hs blks). h \<le> x" by (simp add: less_imp_le)
  then show ?thesis unfolding eq by simp
qed


lemma head_in_vblock: "headed h blk \<Longrightarrow> h \<in> set (vblock h blk)"
  by (cases blk) (auto simp add: vblock_def headed_def)

lemma heads_search:
  fixes hs :: "int list" and key :: int
  assumes "sorted_wrt (<) hs"
  defines "t \<equiv> sort_Search (length hs) (\<lambda>i. key < hs ! i)"
  shows "\<forall>k < t. hs ! k \<le> key" and "\<forall>k. t \<le> k \<and> k < length hs \<longrightarrow> key < hs ! k"
    and "t \<le> length hs"
proof -
  have mono: "\<forall>a b. a \<le> b \<and> b < length hs \<and> key < hs ! a \<longrightarrow> key < hs ! b"
  proof (intro allI impI)
    fix a b assume a: "a \<le> b \<and> b < length hs \<and> key < hs ! a"
    show "key < hs ! b"
    proof (cases "a = b")
      case True
      with a show ?thesis by simp
    next
      case False
      with a have "a < b" by simp
      then have "hs ! a < hs ! b" using assms(1) a by (simp add: sorted_wrt_iff_nth_less)
      with a show ?thesis by simp
    qed
  qed
  show "\<forall>k < t. hs ! k \<le> key"
    unfolding t_def using sort_Search_least(1) [OF mono] by (simp add: not_less)
  show le: "t \<le> length hs" unfolding t_def by (rule sort_Search_le)
  show "\<forall>k. t \<le> k \<and> k < length hs \<longrightarrow> key < hs ! k"
  proof (intro allI impI)
    fix k assume k: "t \<le> k \<and> k < length hs"
    then have "t < length hs" by simp
    then have "key < hs ! t" unfolding t_def using sort_Search_least(2) [OF mono] by simp
    then show "key < hs ! k" using mono k by blast
  qed
qed

lemma locate_block:
  assumes hd: "list_all2 headed hs bs" and srt: "sorted_wrt (<) (virtual hs bs)"
      and idx: "idx < length bs"
      and after: "\<forall>k. idx < k \<and> k < length hs \<longrightarrow> key < hs ! k"
      and before: "idx = 0 \<or> hs ! idx \<le> key"
  obtains hpre hpost pre post where
      "hs = hpre @ hs ! idx # hpost" "bs = pre @ bs ! idx # post"
      "length hpre = idx" "length pre = idx"
      "list_all2 headed hpre pre" "headed (hs ! idx) (bs ! idx)" "list_all2 headed hpost post"
      "sorted_wrt (<) (virtual hpre pre)" "sorted_wrt (<) (vblock (hs ! idx) (bs ! idx))"
      "sorted_wrt (<) (virtual hpost post)"
      "\<forall>x \<in> set (virtual hpre pre). \<forall>y \<in> set (vblock (hs ! idx) (bs ! idx)). x < y"
      "\<forall>x \<in> set (virtual hpre pre). \<forall>y \<in> set (virtual hpost post). x < y"
      "\<forall>x \<in> set (vblock (hs ! idx) (bs ! idx)). \<forall>y \<in> set (virtual hpost post). x < y"
      "\<forall>x \<in> set (virtual hpre pre). x < key" "\<forall>y \<in> set (virtual hpost post). key < y"
proof -
  have len: "length hs = length bs" using hd by (rule list_all2_lengthD)
  let ?hpre = "take idx hs" and ?hpost = "drop (Suc idx) hs"
  let ?pre = "take idx bs" and ?post = "drop (Suc idx) bs"
  let ?h = "hs ! idx" and ?cur = "bs ! idx"
  have hs: "hs = ?hpre @ ?h # ?hpost" using idx len by (simp add: id_take_nth_drop)
  have bs: "bs = ?pre @ ?cur # ?post" using idx by (simp add: id_take_nth_drop)
  have l1: "length ?hpre = idx" "length ?pre = idx" using idx len by simp_all
  have h1: "list_all2 headed ?hpre ?pre" using hd by (rule list_all2_takeI)
  have h2: "headed ?h ?cur" using hd idx len by (simp add: list_all2_nthD)
  have h3: "list_all2 headed ?hpost ?post" using hd by (rule list_all2_dropI)
  have l3: "length ?hpost = length ?post" using len by simp
  have v: "virtual hs bs = virtual ?hpre ?pre @ vblock ?h ?cur @ virtual ?hpost ?post"
  proof -
    have "virtual hs bs = virtual (?hpre @ ?h # ?hpost) (?pre @ ?cur # ?post)"
      using hs bs by simp
    also have "\<dots> = virtual ?hpre ?pre @ virtual (?h # ?hpost) (?cur # ?post)"
      using l1 by (intro virtual_append) simp
    finally show ?thesis by simp
  qed
  have s: "sorted_wrt (<) (virtual ?hpre ?pre)" "sorted_wrt (<) (vblock ?h ?cur)"
      "sorted_wrt (<) (virtual ?hpost ?post)"
      "\<forall>x \<in> set (virtual ?hpre ?pre). \<forall>y \<in> set (vblock ?h ?cur). x < y"
      "\<forall>x \<in> set (virtual ?hpre ?pre). \<forall>y \<in> set (virtual ?hpost ?post). x < y"
      "\<forall>x \<in> set (vblock ?h ?cur). \<forall>y \<in> set (virtual ?hpost ?post). x < y"
    using srt unfolding v by (simp_all add: sorted_wrt_append)
  have a: "\<forall>x \<in> set (virtual ?hpre ?pre). x < key"
  proof (cases "idx = 0")
    case True
    then show ?thesis by simp
  next
    case False
    then have "?h \<le> key" using before by simp
    moreover have "?h \<in> set (vblock ?h ?cur)" using h2 by (rule head_in_vblock)
    ultimately show ?thesis using s(4) by fastforce
  qed
  have c: "\<forall>y \<in> set (virtual ?hpost ?post). key < y"
  proof (cases ?hpost)
    case Nil
    then show ?thesis by simp
  next
    case (Cons hn hrest)
    then obtain nb prest where p: "?post = nb # prest" using l3 by (cases ?post) simp_all
    have "Suc idx < length hs" using Cons by (metis drop_eq_Nil list.distinct(1) not_le)
    moreover have "hn = hs ! Suc idx" using Cons by (metis hd_drop_conv_nth calculation list.sel(1))
    ultimately have "key < hn" using after by simp
    moreover have "\<forall>y \<in> set (virtual ?hpost ?post). hn \<le> y"
      using virtual_lower_bound [of hn hrest nb prest] h3 s(3) unfolding Cons p by simp
    ultimately show ?thesis by fastforce
  qed
  show ?thesis
    using that [OF hs bs l1 h1 h2 h3 s a c] .
qed

subsection \<open>Insert and Delete keep a duplicate-free blocked engine well formed\<close>

lemma strict_insort:
  "sorted_wrt (<) (a :: int list) \<Longrightarrow> x \<notin> set a \<Longrightarrow> sorted_wrt (<) (insort x a)"
  by (simp add: strict_sorted_iff sorted_insort distinct_insort)

lemma sorted_wrt_append3:
  "sorted_wrt P xs \<Longrightarrow> sorted_wrt P ys \<Longrightarrow> sorted_wrt P zs \<Longrightarrow>
   \<forall>x \<in> set xs. \<forall>y \<in> set ys. P x y \<Longrightarrow> \<forall>y \<in> set ys. \<forall>z \<in> set zs. P y z \<Longrightarrow>
   \<forall>x \<in> set xs. \<forall>z \<in> set zs. P x z \<Longrightarrow> sorted_wrt P (xs @ ys @ zs)"
  by (auto simp add: sorted_wrt_append)

lemma blocked_Insert_wf:
  assumes wfb: "well_formed bz"
  shows "\<exists>bz'. blocked_Insert bz key = Inr bz' \<and> well_formed bz' \<and> B bz' = B bz
               \<and> set (concat (blocks bz')) = insert key (set (concat (blocks bz)))"
proof -
  have inv: "size_inv bz" and hd: "list_all2 headed (heads bz) (blocks bz)"
    and srt: "sorted_wrt (<) (virtual (heads bz) (blocks bz))"
    using wfb by (simp_all add: well_formed_def)
  have len: "length (heads bz) = length (blocks bz)" and b: "1 \<le> B bz"
    and b62: "B bz < 2 ^ 62"
    using inv by (simp_all add: size_inv_def)
  obtain bz1 where ins1: "blocked_Insert bz key = Inr bz1" and inv1: "size_inv bz1" "B bz1 = B bz"
    using blocked_Insert_size_inv [OF inv, of key] by blast
  have goal: "list_all2 headed (heads bz1) (blocks bz1)
              \<and> sorted_wrt (<) (virtual (heads bz1) (blocks bz1))
              \<and> set (concat (blocks bz1)) = insert key (set (concat (blocks bz)))"
  proof (cases "blocks bz = []")
    case True
    then have "bz1 = bz\<lparr>blocks := [[key]], heads := [key]\<rparr>"
      using ins1 by (simp add: blocked_Insert_empty)
    then show ?thesis using True by (simp add: headed_def vblock_def)
  next
    case ne: False
    define idx where "idx = sort_Search (length (heads bz)) (\<lambda>i. key < heads bz ! i) - Suc 0"
    define cur where "cur = blocks bz ! idx"
    define pos where "pos = sort_SearchInts cur key"
    define cur' where "cur' = take pos cur @ [key] @ drop pos cur"
    define h where "h = heads bz ! idx"
    note shape = blocked_Insert_shape [OF len ne b b62, of key, folded idx_def, folded cur_def,
        folded pos_def, folded cur'_def]
    have idx: "idx < length (blocks bz)" by (rule shape(1))
    have sh: "sorted_wrt (<) (heads bz)" using hd srt by (rule sorted_virtual_heads)
    note hs = heads_search [OF sh, of key]
    have after: "\<forall>k. idx < k \<and> k < length (heads bz) \<longrightarrow> key < heads bz ! k"
      using hs(2) unfolding idx_def by auto
    have before: "idx = 0 \<or> heads bz ! idx \<le> key"
      using hs(1) unfolding idx_def by (cases "sort_Search (length (heads bz)) (\<lambda>i. key < heads bz ! i)") auto
    show ?thesis
    proof (rule locate_block [OF hd srt idx after before])
    fix hpre hpost pre post
    assume dh0: "heads bz = hpre @ heads bz ! idx # hpost"
      and db0: "blocks bz = pre @ blocks bz ! idx # post"
      and lh: "length hpre = idx" and lp: "length pre = idx"
      and h1: "list_all2 headed hpre pre" and h3: "list_all2 headed hpost post"
      and sA: "sorted_wrt (<) (virtual hpre pre)"
      and sV0: "sorted_wrt (<) (vblock (heads bz ! idx) (blocks bz ! idx))"
      and sC: "sorted_wrt (<) (virtual hpost post)"
      and AV0: "\<forall>x \<in> set (virtual hpre pre). \<forall>y \<in> set (vblock (heads bz ! idx) (blocks bz ! idx)). x < y"
      and AC: "\<forall>x \<in> set (virtual hpre pre). \<forall>y \<in> set (virtual hpost post). x < y"
      and VC0: "\<forall>x \<in> set (vblock (heads bz ! idx) (blocks bz ! idx)). \<forall>y \<in> set (virtual hpost post). x < y"
      and Ak: "\<forall>x \<in> set (virtual hpre pre). x < key"
      and kC: "\<forall>y \<in> set (virtual hpost post). key < y"
    note db = db0 [folded cur_def] and sV = sV0 [folded cur_def h_def]
      and AV = AV0 [folded cur_def h_def] and VC = VC0 [folded cur_def h_def]
      and dh = dh0 [folded h_def]
    have tk: "take idx (blocks bz) = pre" and dr: "drop (Suc idx) (blocks bz) = post"
      using db lp by simp_all
    have tkh: "take idx (heads bz) = hpre" and drh: "drop (Suc idx) (heads bz) = hpost"
      using dh lh by simp_all
    have scur: "sorted_wrt (<) cur" using sV by (rule sorted_vblock_block)
    then have scur': "sorted cur" by (simp add: strict_sorted_iff)
    have curV: "set cur \<subseteq> set (vblock h cur)" by (auto simp add: set_vblock)
    have found: "(pos < length cur \<and> cur ! pos = key) \<longleftrightarrow> key \<in> set cur"
      unfolding pos_def by (rule sort_SearchInts_found [OF scur'])
    show ?thesis
    proof (cases "key \<in> set cur")
      case True
      then have "bz1 = bz" using ins1 found by (simp add: shape(2))
      moreover have "key \<in> set (concat (blocks bz))" using True db by simp
      ultimately show ?thesis using hd srt by (simp add: insert_absorb)
    next
      case False
      have c': "cur' = insort key cur"
        unfolding cur'_def pos_def by (rule slice_insert_insort [OF scur'])
      have sc': "sorted_wrt (<) cur'" unfolding c' using scur False by (rule strict_insort)
      have setc': "set cur' = insert key (set cur)" unfolding c' by (simp add: set_insort_key)
      have ne': "cur' \<noteq> []" using setc' by auto
      have Ac': "\<forall>x \<in> set (virtual hpre pre). \<forall>y \<in> set cur'. x < y"
        using Ak AV curV unfolding setc' by blast
      have c'C: "\<forall>x \<in> set cur'. \<forall>y \<in> set (virtual hpost post). x < y"
        using kC VC curV unfolding setc' by blast
      have lhp: "length hpost = length post" using h3 by (rule list_all2_lengthD)
      have lhpre: "length hpre = length pre" using lh lp by simp
      show ?thesis
      proof (cases "2 * B bz < length cur'")
        case split: True
        let ?l = "take (B bz) cur'" and ?r = "drop (B bz) cur'"
        have l: "?l \<noteq> []" using split b by auto
        have r: "?r \<noteq> []" using split by auto
        have bz1: "bz1 = bz\<lparr>blocks := pre @ ?l # ?r # post, heads := hpre @ hd ?l # hd ?r # hpost\<rparr>"
          using ins1 found False split by (simp add: shape(2) tk dr tkh drh)
        have v: "virtual (hpre @ hd ?l # hd ?r # hpost) (pre @ ?l # ?r # post)
                 = virtual hpre pre @ cur' @ virtual hpost post"
          using lhpre l r by (simp add: virtual_append vblock_self)
        have "list_all2 headed (hpre @ hd ?l # hd ?r # hpost) (pre @ ?l # ?r # post)"
          using h1 h3 by (simp add: list_all2_appendI headed_def)
        moreover have "sorted_wrt (<) (virtual hpre pre @ cur' @ virtual hpost post)"
          using sA sc' sC Ac' c'C AC by (rule sorted_wrt_append3)
        moreover have "set (concat (pre @ ?l # ?r # post)) = insert key (set (concat (blocks bz)))"
        proof -
          have "set ?l \<union> set ?r = set cur'" by (metis append_take_drop_id set_append)
          then show ?thesis unfolding db using setc' by auto
        qed
        ultimately show ?thesis unfolding bz1 using v by simp
      next
        case nosplit: False
        have bz1: "bz1 = bz\<lparr>blocks := pre @ cur' # post, heads := hpre @ hd cur' # hpost\<rparr>"
        proof -
          have "(heads bz)[idx := hd cur'] = hpre @ hd cur' # hpost"
            unfolding dh lh [symmetric] by simp
          then show ?thesis using ins1 found False nosplit by (simp add: shape(2) tk dr)
        qed
        have v: "virtual (hpre @ hd cur' # hpost) (pre @ cur' # post)
                 = virtual hpre pre @ cur' @ virtual hpost post"
          using lhpre ne' by (simp add: virtual_append vblock_self)
        have "list_all2 headed (hpre @ hd cur' # hpost) (pre @ cur' # post)"
          using h1 h3 by (simp add: list_all2_appendI headed_def)
        moreover have "sorted_wrt (<) (virtual hpre pre @ cur' @ virtual hpost post)"
          using sA sc' sC Ac' c'C AC by (rule sorted_wrt_append3)
        moreover have "set (concat (pre @ cur' # post)) = insert key (set (concat (blocks bz)))"
          unfolding db using setc' by auto
        ultimately show ?thesis unfolding bz1 using v by simp
      qed
    qed
    qed
  qed
  show ?thesis using ins1 inv1 goal by (auto simp add: well_formed_def)
qed


lemma strict_remove1:
  "sorted_wrt (<) (a :: int list) \<Longrightarrow> sorted_wrt (<) (remove1 x a)"
  by (simp add: strict_sorted_iff sorted_remove1)

lemma headed_hd [simp]: "headed (hd blk) blk"
  by (simp add: headed_def)

lemma list_all2_headed_snoc:
  assumes "list_all2 headed hs (pre' @ [pb])"
  obtains hpre' hp where "hs = hpre' @ [hp]" "list_all2 headed hpre' pre'" "headed hp pb"
proof -
  from assms obtain us vs where hs: "hs = us @ vs" and l: "length us = length pre'"
      "length vs = length [pb]" and a: "list_all2 headed us pre'" "list_all2 headed vs [pb]"
    by (auto simp add: list_all2_append2)
  from l(2) obtain hp where vs: "vs = [hp]" by (cases vs) simp_all
  show ?thesis using that [of us hp] hs vs a by simp
qed

lemma blocked_Delete_wf:
  assumes wfb: "well_formed bz"
  shows "\<exists>bz'. blocked_Delete bz key = Inr (key \<in> set (concat (blocks bz)), bz') \<and> well_formed bz'
               \<and> B bz' = B bz
               \<and> set (concat (blocks bz')) = set (concat (blocks bz)) - {key}"
proof -
  have inv: "size_inv bz" and hd: "list_all2 headed (heads bz) (blocks bz)"
    and srt: "sorted_wrt (<) (virtual (heads bz) (blocks bz))"
    using wfb by (simp_all add: well_formed_def)
  have len: "length (heads bz) = length (blocks bz)" and b: "1 \<le> B bz"
    using inv by (simp_all add: size_inv_def)
  obtain found bz1 where del1: "blocked_Delete bz key = Inr (found, bz1)"
      and inv1: "size_inv bz1" "B bz1 = B bz"
    using blocked_Delete_size_inv [OF inv, of key] by blast
  define t where "t = sort_Search (length (heads bz)) (\<lambda>i. key < heads bz ! i)"
  define idx where "idx = t - Suc 0"
  define cur where "cur = blocks bz ! idx"
  define pos where "pos = sort_SearchInts cur key"
  define cur' where "cur' = take pos cur @ drop (pos + Suc 0) cur"
  define blocks' where "blocks' = (blocks bz)[idx := cur']"
  define m where "m = (if idx = length (blocks bz) - Suc 0 then idx - Suc 0 else idx)"
  define merged where "merged = blocks' ! m @ blocks' ! (m + Suc 0)"
  define h where "h = heads bz ! idx"
  note shape = blocked_Delete_shape [OF len, of key, folded t_def, folded idx_def, folded cur_def,
      folded pos_def, folded cur'_def, folded blocks'_def, folded m_def, folded merged_def]
  have sh: "sorted_wrt (<) (heads bz)" using hd srt by (rule sorted_virtual_heads)
  note hs = heads_search [OF sh, of key, folded t_def]
  have sub: "set (concat (blocks bz)) \<subseteq> set (virtual (heads bz) (blocks bz))"
    using len by (rule set_concat_virtual)
  have goal: "found = (key \<in> set (concat (blocks bz)))
              \<and> list_all2 headed (heads bz1) (blocks bz1)
              \<and> sorted_wrt (<) (virtual (heads bz1) (blocks bz1))
              \<and> set (concat (blocks bz1)) = set (concat (blocks bz)) - {key}"
  proof (cases "t = 0")
    case True
    then have res: "found = False" "bz1 = bz" using del1 by (simp_all add: shape(1))
    have "key \<notin> set (virtual (heads bz) (blocks bz))"
    proof (cases "heads bz")
      case Nil
      then show ?thesis by simp
    next
      case (Cons h0 hrest)
      then obtain b0 brest where bs: "blocks bz = b0 # brest" using len by (cases "blocks bz") simp_all
      have "key < h0" using hs(2) True Cons by auto
      moreover have "\<forall>x \<in> set (virtual (heads bz) (blocks bz)). h0 \<le> x"
        using virtual_lower_bound [of h0 hrest b0 brest] hd srt unfolding Cons bs by simp
      ultimately show ?thesis by fastforce
    qed
    then have "key \<notin> set (concat (blocks bz))" using sub by blast
    then show ?thesis using res hd srt by simp
  next
    case t0: False
    have idx: "idx < length (blocks bz)" using shape(2) [OF t0] .
    have after: "\<forall>k. idx < k \<and> k < length (heads bz) \<longrightarrow> key < heads bz ! k"
      using hs(2) t0 unfolding idx_def by auto
    have before: "idx = 0 \<or> heads bz ! idx \<le> key"
      using hs(1) t0 unfolding idx_def by auto
    show ?thesis
    proof (rule locate_block [OF hd srt idx after before])
      fix hpre hpost pre post
      assume dh0: "heads bz = hpre @ heads bz ! idx # hpost"
        and db0: "blocks bz = pre @ blocks bz ! idx # post"
        and lh: "length hpre = idx" and lp: "length pre = idx"
        and h1: "list_all2 headed hpre pre" and h20: "headed (heads bz ! idx) (blocks bz ! idx)"
        and h3: "list_all2 headed hpost post"
        and sA: "sorted_wrt (<) (virtual hpre pre)"
        and sV0: "sorted_wrt (<) (vblock (heads bz ! idx) (blocks bz ! idx))"
        and sC: "sorted_wrt (<) (virtual hpost post)"
        and AV0: "\<forall>x \<in> set (virtual hpre pre). \<forall>y \<in> set (vblock (heads bz ! idx) (blocks bz ! idx)). x < y"
        and AC: "\<forall>x \<in> set (virtual hpre pre). \<forall>y \<in> set (virtual hpost post). x < y"
        and VC0: "\<forall>x \<in> set (vblock (heads bz ! idx) (blocks bz ! idx)). \<forall>y \<in> set (virtual hpost post). x < y"
        and Ak: "\<forall>x \<in> set (virtual hpre pre). x < key"
        and kC: "\<forall>y \<in> set (virtual hpost post). key < y"
      note db = db0 [folded cur_def] and sV = sV0 [folded cur_def h_def]
        and AV = AV0 [folded cur_def h_def] and VC = VC0 [folded cur_def h_def]
        and dh = dh0 [folded h_def] and h2 = h20 [folded cur_def h_def]
      have lhpre: "length hpre = length pre" using lh lp by simp
      have lhp: "length hpost = length post" using h3 by (rule list_all2_lengthD)
      have bs': "blocks' = pre @ cur' # post"
        unfolding blocks'_def db lp [symmetric] by simp
      have scur: "sorted_wrt (<) cur" using sV by (rule sorted_vblock_block)
      then have scur': "sorted cur" and dcur: "distinct cur" by (simp_all add: strict_sorted_iff)
      have subA: "set (concat pre) \<subseteq> set (virtual hpre pre)"
        using lhpre by (rule set_concat_virtual)
      have subC: "set (concat post) \<subseteq> set (virtual hpost post)"
        using lhp by (rule set_concat_virtual)
      have kpre: "key \<notin> set (concat pre)" using subA Ak by fastforce
      have kpost: "key \<notin> set (concat post)" using subC kC by fastforce
      have mem: "key \<in> set (concat (blocks bz)) \<longleftrightarrow> key \<in> set cur"
        unfolding db using kpre kpost by simp
      have fnd: "(pos < length cur \<and> cur ! pos = key) \<longleftrightarrow> key \<in> set cur"
        unfolding pos_def by (rule sort_SearchInts_found [OF scur'])
      show ?thesis
      proof (cases "key \<in> set cur")
        case False
        then have "found = False" "bz1 = bz" using del1 fnd t0 by (auto simp add: shape(1))
        then show ?thesis using False mem hd srt by simp
      next
        case True
        then have cne: "cur \<noteq> []" by auto
        have notfirst: "\<not> (t = 0 \<or> length cur \<le> pos \<or> cur ! pos \<noteq> key)"
          using True fnd t0 by auto
        have c': "cur' = remove1 key cur"
          unfolding cur'_def pos_def using slice_delete_remove1 [OF scur' True] by simp
        have sc': "sorted_wrt (<) cur'" unfolding c' using scur by (rule strict_remove1)
        have setc': "set cur' = set cur - {key}" unfolding c' using dcur by simp
        have vcur: "vblock h cur = cur" using cne by (rule vblock_self)
        have Ac': "\<forall>x \<in> set (virtual hpre pre). \<forall>y \<in> set cur'. x < y"
          using AV unfolding vcur setc' by blast
        have c'C: "\<forall>x \<in> set cur'. \<forall>y \<in> set (virtual hpost post). x < y"
          using VC unfolding vcur setc' by blast
        have sets: "set (concat pre) \<union> set cur' \<union> set (concat post) = set (concat (blocks bz)) - {key}"
          unfolding db setc' using kpre kpost by auto
        show ?thesis
        proof (cases "length cur' < B bz div 2 \<and> Suc 0 < length (blocks bz)")
          case nomerge: False
          have res: "found = True"
              "bz1 = bz\<lparr>blocks := pre @ cur' # post,
                       heads := (if cur' = [] then heads bz else (heads bz)[idx := hd cur'])\<rparr>"
            using del1 notfirst nomerge unfolding shape(1) bs' by simp_all
          show ?thesis
          proof (cases "cur' = []")
            case empty: True
            then have "set cur = {key}" using setc' True by auto
            then have "cur = [key]" using dcur
              by (metis distinct.simps(2) empty_iff empty_set insert_iff list.exhaust list.set(2)
                    set_ConsD singletonD)
            then have hk: "h = key" using h2 by (simp add: headed_def)
            have v: "virtual (heads bz) (pre @ [] # post) = virtual hpre pre @ [h] @ virtual hpost post"
              unfolding dh using lhpre by (simp add: virtual_append vblock_def)
            have "sorted_wrt (<) (virtual hpre pre @ [h] @ virtual hpost post)"
              using sA _ sC
            proof (rule sorted_wrt_append3)
              show "sorted_wrt (<) [h]" by simp
              show "\<forall>x \<in> set (virtual hpre pre). \<forall>y \<in> set [h]. x < y" using Ak hk by simp
              show "\<forall>y \<in> set [h]. \<forall>z \<in> set (virtual hpost post). y < z" using kC hk by simp
              show "\<forall>x \<in> set (virtual hpre pre). \<forall>z \<in> set (virtual hpost post). x < z" by (rule AC)
            qed
            moreover have "list_all2 headed (heads bz) (pre @ [] # post)"
              unfolding dh using h1 h3 by (simp add: list_all2_appendI headed_def)
            moreover have "set (concat (pre @ [] # post)) = set (concat (blocks bz)) - {key}"
              using sets empty by simp
            ultimately show ?thesis using res empty mem True v by simp
          next
            case nonempty: False
            have hu: "(heads bz)[idx := hd cur'] = hpre @ hd cur' # hpost"
              unfolding dh lh [symmetric] by simp
            have v: "virtual (hpre @ hd cur' # hpost) (pre @ cur' # post)
                     = virtual hpre pre @ cur' @ virtual hpost post"
              using lhpre nonempty by (simp add: virtual_append vblock_self)
            have "sorted_wrt (<) (virtual hpre pre @ cur' @ virtual hpost post)"
              using sA sc' sC Ac' c'C AC by (rule sorted_wrt_append3)
            moreover have "list_all2 headed (hpre @ hd cur' # hpost) (pre @ cur' # post)"
              using h1 h3 by (simp add: list_all2_appendI)
            moreover have "set (concat (pre @ cur' # post)) = set (concat (blocks bz)) - {key}"
              using sets by auto
            ultimately show ?thesis using res nonempty mem True v hu by simp
          qed
        next
          case merge: True
          then have d: "1 \<le> B bz div 2" and n2: "Suc 0 < length (blocks bz)" by simp_all
          then have b2: "2 \<le> B bz" by simp
          show ?thesis
          proof (cases "post = []")
            case last: True
            then have hpost: "hpost = []" using lhp by simp
            have "pre \<noteq> []" using n2 db last by auto
            then obtain pre' pb where pre: "pre = pre' @ [pb]" by (metis rev_exhaust)
            obtain hpre' hp where hpre: "hpre = hpre' @ [hp]"
                and h1': "list_all2 headed hpre' pre'" and hpb: "headed hp pb"
              using list_all2_headed_snoc [OF h1 [unfolded pre]] by blast
            have lhpre': "length hpre' = length pre'" using h1' by (rule list_all2_lengthD)
            have idx_last: "idx = length (blocks bz) - Suc 0" using db lp last by simp
            have lp': "length pre' = idx - Suc 0" using lp pre by simp
            have m: "m = length pre'" using idx_last lp' by (simp add: m_def)
            have bs2: "blocks' = pre' @ pb # cur' # []" using bs' pre last by simp
            have mg: "merged = pb @ cur'" unfolding merged_def m bs2 by (simp add: nth_append)
            have pbok: "B bz div 2 \<le> length pb"
              using inv unfolding size_inv_def db pre last by (simp add: butlast_append)
            then have pbne: "pb \<noteq> []" using d by auto
            then have mne: "merged \<noteq> []" using mg by simp
            have tk: "take m blocks' = pre'" and dr: "drop (Suc (Suc m)) blocks' = []"
              unfolding m bs2 by simp_all
            have tkh: "take m (heads bz) = hpre'" and drh: "drop (Suc (Suc m)) (heads bz) = []"
              unfolding dh hpre hpost m lhpre' [symmetric] by simp_all
            have hm: "hd merged = hp" using mg pbne hpb by (simp add: headed_def)
            have res: "found = True"
                "bz1 = bz\<lparr>blocks := pre' @ [merged], heads := hpre' @ [hp]\<rparr>"
              using del1 notfirst merge mne unfolding shape(1) by (simp_all add: tk dr tkh drh hm)
            have vA: "virtual hpre pre = virtual hpre' pre' @ pb"
              unfolding hpre pre using lhpre' pbne by (simp add: virtual_append vblock_self)
            have v: "virtual (hpre' @ [hp]) (pre' @ [merged]) = virtual hpre pre @ cur'"
              unfolding vA using lhpre' mne mg by (simp add: virtual_append vblock_self)
            have "sorted_wrt (<) (virtual hpre pre @ cur')"
              using sA sc' Ac' by (simp add: sorted_wrt_append)
            moreover have "list_all2 headed (hpre' @ [hp]) (pre' @ [merged])"
              using h1' hm by (auto simp add: list_all2_appendI headed_def)
            moreover have "set (concat (pre' @ [merged])) = set (concat (blocks bz)) - {key}"
              using sets unfolding pre last mg by auto
            ultimately show ?thesis using res mem True v by simp
          next
            case notlast: False
            then obtain nb post' where post: "post = nb # post'" by (cases post) auto
            then obtain hn hpost' where hpost: "hpost = hn # hpost'" using lhp by (cases hpost) auto
            have h3': "list_all2 headed hpost' post'" and hnb: "headed hn nb"
              using h3 unfolding post hpost by simp_all
            have lhp': "length hpost' = length post'" using h3' by (rule list_all2_lengthD)
            have "idx \<noteq> length (blocks bz) - Suc 0" using db lp post by simp
            then have m: "m = length pre" using lp by (simp add: m_def)
            have bs2: "blocks' = pre @ cur' # nb # post'" using bs' post by simp
            have mg: "merged = cur' @ nb" unfolding merged_def m bs2 by (simp add: nth_append)
            have nbne: "nb \<noteq> []"
            proof (cases "post' = []")
              case True
              then show ?thesis using inv b2 unfolding size_inv_def db post by simp
            next
              case False
              then have "B bz div 2 \<le> length nb"
                using inv unfolding size_inv_def db post by (simp add: butlast_append)
              then show ?thesis using d by auto
            qed
            then have mne: "merged \<noteq> []" using mg by simp
            have tk: "take m blocks' = pre" and dr: "drop (Suc (Suc m)) blocks' = post'"
              unfolding m bs2 by simp_all
            have tkh: "take m (heads bz) = hpre" and drh: "drop (Suc (Suc m)) (heads bz) = hpost'"
              unfolding dh hpost m lhpre [symmetric] by simp_all
            have res: "found = True"
                "bz1 = bz\<lparr>blocks := pre @ merged # post', heads := hpre @ hd merged # hpost'\<rparr>"
              using del1 notfirst merge mne unfolding shape(1) by (simp_all add: tk dr tkh drh)
            have vC: "virtual hpost post = nb @ virtual hpost' post'"
              unfolding hpost post using nbne by (simp add: vblock_self)
            have v: "virtual (hpre @ hd merged # hpost') (pre @ merged # post')
                     = virtual hpre pre @ cur' @ virtual hpost post"
              unfolding vC using lhpre mne mg by (simp add: virtual_append vblock_self)
            have "sorted_wrt (<) (virtual hpre pre @ cur' @ virtual hpost post)"
              using sA sc' sC Ac' c'C AC by (rule sorted_wrt_append3)
            moreover have "list_all2 headed (hpre @ hd merged # hpost') (pre @ merged # post')"
              using h1 h3' by (simp add: list_all2_appendI)
            moreover have "set (concat (pre @ merged # post')) = set (concat (blocks bz)) - {key}"
              using sets unfolding post mg by auto
            ultimately show ?thesis using res mem True v by simp
          qed
        qed
      qed
    qed
  qed
  show ?thesis using del1 inv1 goal by (auto simp add: well_formed_def)
qed

subsection \<open>The two engines on duplicate-free input\<close>

lemma strict_sorted_unique:
  "sorted_wrt (<) (xs :: int list) \<Longrightarrow> sorted_wrt (<) ys \<Longrightarrow> set xs = set ys \<Longrightarrow> xs = ys"
  by (simp add: strict_sorted_iff sorted_distinct_set_unique)

lemma well_formed_sorted_keys: "well_formed bz \<Longrightarrow> sorted_wrt (<) (blocked_GetKeys bz)"
  unfolding blocked_GetKeys_def well_formed_def
  by (metis list_all2_lengthD sorted_virtual_concat)

lemma virtual_nonempty_blocks:
  "\<forall>blk \<in> set blks. blk \<noteq> [] \<Longrightarrow> virtual (map hd blks) blks = concat blks"
  by (induction blks) (simp_all add: vblock_self)

lemma NewBlockedZSL_wf:
  assumes "1 \<le> b" "b < 2 ^ 62" "distinct ks"
  shows "\<exists>bz. NewBlockedZSL ks b = Some (sort ks, Inr bz) \<and> well_formed bz \<and> B bz = b
              \<and> blocked_GetKeys bz = sort ks"
proof -
  let ?cs = "chunks b (sort ks)"
  let ?bz = "\<lparr>blocks = ?cs, heads = map hd ?cs, B = b\<rparr>"
  have pos: "0 < b" using assms(1) by simp
  obtain bz where new: "NewBlockedZSL ks b = Some (sort ks, Inr bz)" and inv: "size_inv bz"
    using NewBlockedZSL_size_inv [OF assms(1,2)] by blast
  have bz: "bz = ?bz" using new NewBlockedZSL_char [OF pos, of ks] by simp
  have ne: "\<forall>blk \<in> set ?cs. blk \<noteq> []" using chunks_nonempty [OF pos] by blast
  have cc: "concat ?cs = sort ks" using pos by (rule concat_chunks)
  have "list_all2 headed (map hd ?cs) ?cs"
    by (simp add: list_all2_conv_all_nth)
  moreover have "sorted_wrt (<) (virtual (map hd ?cs) ?cs)"
    using assms(3) by (simp add: virtual_nonempty_blocks [OF ne] cc strict_sorted_iff)
  ultimately have "well_formed ?bz" using inv unfolding bz by (simp add: well_formed_def)
  then show ?thesis using new bz cc by (simp add: blocked_GetKeys_def)
qed

lemma NewStaticZSL_distinct:
  assumes "distinct ks"
  shows "\<exists>zsl. NewStaticZSL ks = (sort ks, Inr zsl) \<and> keys zsl = sort ks"
proof -
  have "remdups_adj (sort ks) = sort ks" using assms by (simp add: remdups_adj_distinct)
  then show ?thesis using NewStaticZSL_char [of ks] by simp
qed

lemma agree_step:
  assumes "agree zsl bz"
  shows "\<exists>zsl' bz'. static_apply zsl x = Inr zsl' \<and> blocked_apply bz x = Inr bz' \<and> agree zsl' bz'"
proof -
  have wfb: "well_formed bz" and sk: "sorted_wrt (<) (keys zsl)" and eq: "keys zsl = concat (blocks bz)"
    using assms unfolding agree_def static_GetKeys_def blocked_GetKeys_def by blast+
  have sk': "sorted (keys zsl)" using sk by (simp add: strict_sorted_iff)
  show ?thesis
  proof (cases x)
    case (Insert key)
    obtain zsl' where s: "static_Insert zsl key = Inr zsl'"
        "keys zsl' = (if key \<in> set (keys zsl) then keys zsl else insort key (keys zsl))"
      using static_Insert_keys [OF sk', of key] by blast
    obtain bz' where bl: "blocked_Insert bz key = Inr bz'" "well_formed bz'"
        "set (concat (blocks bz')) = insert key (set (concat (blocks bz)))"
      using blocked_Insert_wf [OF wfb, of key] by blast
    have s1: "sorted_wrt (<) (keys zsl')" using s(2) sk by (simp add: strict_insort)
    have s2: "sorted_wrt (<) (concat (blocks bz'))"
      using well_formed_sorted_keys [OF bl(2)] by (simp add: blocked_GetKeys_def)
    have "set (keys zsl') = set (concat (blocks bz'))"
      using s(2) bl(3) eq by (auto simp add: set_insort_key)
    then have "keys zsl' = concat (blocks bz')" using s1 s2 by (rule strict_sorted_unique [rotated 2])
    then show ?thesis using Insert s(1) bl(1,2) s1
      by (simp add: agree_def static_GetKeys_def blocked_GetKeys_def)
  next
    case (Delete key)
    obtain zsl' where s: "static_Delete zsl key = Inr (key \<in> set (keys zsl), zsl')"
        "keys zsl' = remove1 key (keys zsl)"
      using static_Delete_keys [OF sk', of key] by blast
    obtain bz' where bl: "blocked_Delete bz key = Inr (key \<in> set (concat (blocks bz)), bz')" "well_formed bz'"
        "set (concat (blocks bz')) = set (concat (blocks bz)) - {key}"
      using blocked_Delete_wf [OF wfb, of key] by blast
    have s1: "sorted_wrt (<) (keys zsl')" using s(2) sk by (simp add: strict_remove1)
    have s2: "sorted_wrt (<) (concat (blocks bz'))"
      using well_formed_sorted_keys [OF bl(2)] by (simp add: blocked_GetKeys_def)
    have "distinct (keys zsl)" using sk by (simp add: strict_sorted_iff)
    then have "set (keys zsl') = set (concat (blocks bz'))"
      using s(2) bl(3) eq by simp
    then have "keys zsl' = concat (blocks bz')" using s1 s2 by (rule strict_sorted_unique [rotated 2])
    then show ?thesis using Delete s(1) bl(1,2) s1
      by (simp add: agree_def static_GetKeys_def blocked_GetKeys_def)
  qed
qed

lemma agree_run:
  "agree zsl bz \<Longrightarrow>
   \<exists>zsl' bz'. static_run zsl ops = Inr zsl' \<and> blocked_run bz ops = Inr bz' \<and> agree zsl' bz'"
proof (induction ops arbitrary: zsl bz)
  case Nil
  then show ?case by simp
next
  case (Cons x xs)
  obtain zsl1 bz1 where 1: "static_apply zsl x = Inr zsl1" "blocked_apply bz x = Inr bz1" "agree zsl1 bz1"
    using agree_step [OF Cons.prems, of x] by blast
  obtain zsl' bz' where 2: "static_run zsl1 xs = Inr zsl'" "blocked_run bz1 xs = Inr bz'" "agree zsl' bz'"
    using Cons.IH [OF 1(3)] by blast
  show ?case using 1 2 by simp
qed

lemma engines_agree_on_distinct_input:
  assumes "1 \<le> b" "b < 2 ^ 62" "distinct ks"
  shows "\<exists>zsl0 bz0 zsl bz. NewStaticZSL ks = (sort ks, Inr zsl0)
           \<and> NewBlockedZSL ks b = Some (sort ks, Inr bz0)
           \<and> static_run zsl0 ops = Inr zsl \<and> blocked_run bz0 ops = Inr bz
           \<and> static_GetKeys zsl = blocked_GetKeys bz"
proof -
  obtain zsl0 where s: "NewStaticZSL ks = (sort ks, Inr zsl0)" "keys zsl0 = sort ks"
    using NewStaticZSL_distinct [OF assms(3)] by blast
  obtain bz0 where bl: "NewBlockedZSL ks b = Some (sort ks, Inr bz0)" "well_formed bz0"
      "blocked_GetKeys bz0 = sort ks"
    using NewBlockedZSL_wf [OF assms] by blast
  have "agree zsl0 bz0"
    using s(2) bl(2,3) assms(3) by (simp add: agree_def static_GetKeys_def strict_sorted_iff)
  then obtain zsl bz where "static_run zsl0 ops = Inr zsl" "blocked_run bz0 ops = Inr bz" "agree zsl bz"
    using agree_run by blast
  then show ?thesis using s(1) bl(1) by (auto simp add: agree_def)
qed

subsection \<open>Search and range queries on a well-formed blocked engine\<close>

lemma below_first_head:
  assumes hd: "list_all2 headed hs bs" and srt: "sorted_wrt (<) (virtual hs bs)"
      and all: "\<forall>k < length hs. key < hs ! k"
  shows "\<forall>x \<in> set (concat bs). key < x"
proof (cases hs)
  case Nil
  then have "bs = []" using hd by simp
  then show ?thesis by simp
next
  case (Cons h0 hrest)
  then obtain b0 brest where bs: "bs = b0 # brest" using hd by (cases bs) simp_all
  have len: "length hs = length bs" using hd by (rule list_all2_lengthD)
  have "key < h0" using all Cons by auto
  moreover have "\<forall>x \<in> set (virtual hs bs). h0 \<le> x"
    using virtual_lower_bound [of h0 hrest b0 brest] hd srt unfolding Cons bs by simp
  moreover have "set (concat bs) \<subseteq> set (virtual hs bs)" using len by (rule set_concat_virtual)
  ultimately show ?thesis by fastforce
qed

lemma blocked_Search_wf:
  assumes wfb: "well_formed bz"
  shows "blocked_Search bz key = Inr (key \<in> set (blocked_GetKeys bz))"
proof -
  have inv: "size_inv bz" and hd: "list_all2 headed (heads bz) (blocks bz)"
    and srt: "sorted_wrt (<) (virtual (heads bz) (blocks bz))"
    using wfb by (simp_all add: well_formed_def)
  have len: "length (heads bz) = length (blocks bz)" using inv by (simp add: size_inv_def)
  define t where "t = sort_Search (length (heads bz)) (\<lambda>i. key < heads bz ! i)"
  define idx where "idx = t - Suc 0"
  define cur where "cur = blocks bz ! idx"
  have sh: "sorted_wrt (<) (heads bz)" using hd srt by (rule sorted_virtual_heads)
  note hs = heads_search [OF sh, of key, folded t_def]
  have unfold: "blocked_Search bz key =
     (if t = 0 then Inr False
      else if idx < length (blocks bz)
           then Inr (sort_SearchInts cur key < length cur \<and> cur ! sort_SearchInts cur key = key)
           else Inl IndexOutOfRange)"
    unfolding blocked_Search_def Let_def
    apply (fold t_def)
    apply (simp only: One_nat_def)
    apply (fold idx_def)
    apply (fold cur_def)
    apply (rule refl)
    done
  show ?thesis
  proof (cases "t = 0")
    case True
    then have "\<forall>k < length (heads bz). key < heads bz ! k" using hs(2) by simp
    then have "key \<notin> set (concat (blocks bz))"
      using below_first_head [OF hd srt] by fastforce
    then show ?thesis using True by (simp add: unfold blocked_GetKeys_def)
  next
    case t0: False
    have idx: "idx < length (blocks bz)" using hs(3) t0 len unfolding idx_def by simp
    have after: "\<forall>k. idx < k \<and> k < length (heads bz) \<longrightarrow> key < heads bz ! k"
      using hs(2) t0 unfolding idx_def by auto
    have before: "idx = 0 \<or> heads bz ! idx \<le> key"
      using hs(1) t0 unfolding idx_def by auto
    show ?thesis
    proof (rule locate_block [OF hd srt idx after before])
      fix hpre hpost pre post
      assume db0: "blocks bz = pre @ blocks bz ! idx # post"
        and lp: "length pre = idx"
        and h1: "list_all2 headed hpre pre" and h3: "list_all2 headed hpost post"
        and sV0: "sorted_wrt (<) (vblock (heads bz ! idx) (blocks bz ! idx))"
        and Ak: "\<forall>x \<in> set (virtual hpre pre). x < key"
        and kC: "\<forall>y \<in> set (virtual hpost post). key < y"
      note db = db0 [folded cur_def]
      have scur: "sorted cur"
        using sorted_vblock_block [OF sV0] by (simp add: cur_def strict_sorted_iff)
      have subA: "set (concat pre) \<subseteq> set (virtual hpre pre)"
        using list_all2_lengthD [OF h1] by (rule set_concat_virtual)
      have subC: "set (concat post) \<subseteq> set (virtual hpost post)"
        using list_all2_lengthD [OF h3] by (rule set_concat_virtual)
      have kpre: "key \<notin> set (concat pre)" using subA Ak by fastforce
      have kpost: "key \<notin> set (concat post)" using subC kC by fastforce
      have mem: "key \<in> set (concat (blocks bz)) \<longleftrightarrow> key \<in> set cur"
        unfolding db using kpre kpost by simp
      show ?thesis
        using t0 idx mem sort_SearchInts_found [OF scur, of key]
        by (simp add: unfold blocked_GetKeys_def)
    qed
  qed
qed


lemma suffix_lower_bound:
  assumes hd: "list_all2 headed hs bs" and srt: "sorted_wrt (<) (virtual hs bs)"
      and j: "j < length bs"
  shows "\<forall>x \<in> set (concat (drop j bs)). hs ! j \<le> x"
proof -
  have len: "length hs = length bs" using hd by (rule list_all2_lengthD)
  have v: "virtual hs bs = virtual (take j hs) (take j bs) @ virtual (drop j hs) (drop j bs)"
    using virtual_append [of "take j hs" "take j bs" "drop j hs" "drop j bs"] len by simp
  have s: "sorted_wrt (<) (virtual (drop j hs) (drop j bs))"
    using srt unfolding v by (simp add: sorted_wrt_append)
  have h: "list_all2 headed (drop j hs) (drop j bs)" using hd by (rule list_all2_dropI)
  have dh: "drop j hs = hs ! j # drop (Suc j) hs" using j len by (simp add: Cons_nth_drop_Suc)
  have db: "drop j bs = bs ! j # drop (Suc j) bs" using j by (simp add: Cons_nth_drop_Suc)
  have "\<forall>x \<in> set (virtual (drop j hs) (drop j bs)). hs ! j \<le> x"
    using virtual_lower_bound [of "hs ! j" "drop (Suc j) hs" "bs ! j" "drop (Suc j) bs"] h s
    unfolding dh db by simp
  moreover have "set (concat (drop j bs)) \<subseteq> set (virtual (drop j hs) (drop j bs))"
    using len by (intro set_concat_virtual) simp
  ultimately show ?thesis by blast
qed

lemma block_sorted:
  assumes hd: "list_all2 headed hs bs" and srt: "sorted_wrt (<) (virtual hs bs)"
      and j: "j < length bs"
  shows "sorted (bs ! j)"
proof -
  have "sorted_wrt (<) (concat bs)"
    using list_all2_lengthD [OF hd] srt by (rule sorted_virtual_concat)
  moreover have "concat bs = concat (take j bs) @ bs ! j @ concat (drop (Suc j) bs)"
    using j by (metis append_Cons append_Nil concat.simps(2) concat_append id_take_nth_drop)
  ultimately have "sorted_wrt (<) (bs ! j)" by (simp add: sorted_wrt_append)
  then show ?thesis by (simp add: strict_sorted_iff)
qed

lemma emit_block:
  assumes "sorted cur" and "startPos = sort_SearchInts cur lo \<or> (startPos = 0 \<and> (\<forall>x \<in> set cur. lo \<le> x))"
  shows "emit_loop (drop startPos cur) hi out = out @ filter (\<lambda>k. lo \<le> k \<and> k < hi) cur"
proof -
  have "drop startPos cur = dropWhile (\<lambda>k. k < lo) cur"
  proof (cases "startPos = sort_SearchInts cur lo")
    case True
    then show ?thesis using assms(1) by (simp add: sort_SearchInts_drop)
  next
    case False
    then have "startPos = 0" "\<forall>x \<in> set cur. lo \<le> x" using assms(2) by simp_all
    then show ?thesis by (cases cur) auto
  qed
  then show ?thesis using assms(1) by (simp add: emit_loop_takeWhile sorted_range_filter)
qed

lemma scan_blocks_wf:
  "list_all2 headed (heads bz) (blocks bz) \<Longrightarrow> sorted_wrt (<) (virtual (heads bz) (blocks bz)) \<Longrightarrow>
   \<forall>i. blockIdx \<le> i \<and> i < length (blocks bz) \<and> i \<noteq> startBlockIdx
        \<longrightarrow> (\<forall>x \<in> set (blocks bz ! i). lo \<le> x) \<Longrightarrow>
   scan_blocks bz lo hi startBlockIdx blockIdx out
     = Inr (out @ filter (\<lambda>k. lo \<le> k \<and> k < hi) (concat (drop blockIdx (blocks bz))))"
proof (induction bz lo hi startBlockIdx blockIdx out rule: scan_blocks.induct)
  case (1 bz lo hi startBlockIdx blockIdx out)
  note hd = "1.prems"(1) and srt = "1.prems"(2) and above = "1.prems"(3)
  have len: "length (heads bz) = length (blocks bz)" using hd by (rule list_all2_lengthD)
  show ?case
  proof (cases "blockIdx < length (blocks bz)")
    case False
    then show ?thesis by (subst scan_blocks.simps) simp
  next
    case True
    then have inh: "blockIdx < length (heads bz)" using len by simp
    show ?thesis
    proof (cases "hi \<le> heads bz ! blockIdx")
      case stop: True
      have "\<forall>x \<in> set (concat (drop blockIdx (blocks bz))). heads bz ! blockIdx \<le> x"
        using hd srt True by (rule suffix_lower_bound)
      then have "filter (\<lambda>k. lo \<le> k \<and> k < hi) (concat (drop blockIdx (blocks bz))) = []"
        using stop by (fastforce simp add: filter_empty_conv)
      then show ?thesis using True inh stop by (subst scan_blocks.simps) simp
    next
      case go: False
      define cur where "cur = blocks bz ! blockIdx"
      define startPos where
        "startPos = (if blockIdx = startBlockIdx then sort_SearchInts cur lo else 0)"
      have scur: "sorted cur" unfolding cur_def using hd srt True by (rule block_sorted)
      have sp: "startPos = sort_SearchInts cur lo \<or> (startPos = 0 \<and> (\<forall>x \<in> set cur. lo \<le> x))"
        using above True unfolding startPos_def cur_def by auto
      have em: "emit_loop (drop startPos cur) hi out = out @ filter (\<lambda>k. lo \<le> k \<and> k < hi) cur"
        using scur sp by (rule emit_block)
      have above': "\<forall>i. blockIdx + 1 \<le> i \<and> i < length (blocks bz) \<and> i \<noteq> startBlockIdx
                     \<longrightarrow> (\<forall>x \<in> set (blocks bz ! i). lo \<le> x)"
      proof (intro allI impI)
        fix i assume "blockIdx + 1 \<le> i \<and> i < length (blocks bz) \<and> i \<noteq> startBlockIdx"
        then have "blockIdx \<le> i \<and> i < length (blocks bz) \<and> i \<noteq> startBlockIdx" by simp
        then show "\<forall>x \<in> set (blocks bz ! i). lo \<le> x" using above by blast
      qed
      have ih: "scan_blocks bz lo hi startBlockIdx (blockIdx + 1) (emit_loop (drop startPos cur) hi out)
                = Inr (emit_loop (drop startPos cur) hi out
                       @ filter (\<lambda>k. lo \<le> k \<and> k < hi) (concat (drop (blockIdx + 1) (blocks bz))))"
        using "1.IH" [OF True inh go cur_def startPos_def hd srt above'] .
      have dr: "drop blockIdx (blocks bz) = cur # drop (blockIdx + 1) (blocks bz)"
        using True by (simp add: cur_def Cons_nth_drop_Suc)
      have step: "scan_blocks bz lo hi startBlockIdx blockIdx out
            = scan_blocks bz lo hi startBlockIdx (blockIdx + 1) (emit_loop (drop startPos cur) hi out)"
        using True inh go unfolding startPos_def cur_def
        by (subst scan_blocks.simps) (simp add: Let_def)
      have "scan_blocks bz lo hi startBlockIdx blockIdx out
            = Inr (emit_loop (drop startPos cur) hi out
                   @ filter (\<lambda>k. lo \<le> k \<and> k < hi) (concat (drop (blockIdx + 1) (blocks bz))))"
        using step ih by (rule trans)
      also have "\<dots> = Inr (out @ filter (\<lambda>k. lo \<le> k \<and> k < hi) (concat (drop blockIdx (blocks bz))))"
        unfolding em dr by simp
      finally show ?thesis .
    qed
  qed
qed

lemma blocked_RangeFunc_wf:
  assumes wfb: "well_formed bz"
  shows "blocked_RangeFunc bz lo hi = Inr (filter (\<lambda>k. lo \<le> k \<and> k < hi) (blocked_GetKeys bz))"
proof -
  have inv: "size_inv bz" and hd: "list_all2 headed (heads bz) (blocks bz)"
    and srt: "sorted_wrt (<) (virtual (heads bz) (blocks bz))"
    using wfb by (simp_all add: well_formed_def)
  have len: "length (heads bz) = length (blocks bz)" using inv by (simp add: size_inv_def)
  define t where "t = sort_Search (length (heads bz)) (\<lambda>i. lo < heads bz ! i)"
  define idx where "idx = t - 1"
  have sh: "sorted_wrt (<) (heads bz)" using hd srt by (rule sorted_virtual_heads)
  note hs = heads_search [OF sh, of lo, folded t_def]
  have rf: "blocked_RangeFunc bz lo hi = scan_blocks bz lo hi idx idx []"
    by (simp add: blocked_RangeFunc_def Let_def t_def idx_def)
  let ?P = "\<lambda>k. lo \<le> k \<and> k < hi"
  have "(\<forall>i. idx \<le> i \<and> i < length (blocks bz) \<and> i \<noteq> idx \<longrightarrow> (\<forall>x \<in> set (blocks bz ! i). lo \<le> x))
        \<and> filter ?P (concat (take idx (blocks bz))) = []"
  proof (cases "blocks bz = []")
    case True
    then show ?thesis by simp
  next
    case ne: False
    have idx: "idx < length (blocks bz)" using hs(3) ne len unfolding idx_def
      by (cases "blocks bz") auto
    have after: "\<forall>k. idx < k \<and> k < length (heads bz) \<longrightarrow> lo < heads bz ! k"
      using hs(2) unfolding idx_def by auto
    have before: "idx = 0 \<or> heads bz ! idx \<le> lo"
      using hs(1) unfolding idx_def by (cases t) auto
    show ?thesis
    proof (rule locate_block [OF hd srt idx after before])
      fix hpre hpost pre post
      assume db0: "blocks bz = pre @ blocks bz ! idx # post"
        and lp: "length pre = idx"
        and h1: "list_all2 headed hpre pre" and h3: "list_all2 headed hpost post"
        and Ak: "\<forall>x \<in> set (virtual hpre pre). x < lo"
        and kC: "\<forall>y \<in> set (virtual hpost post). lo < y"
      define cur where "cur = blocks bz ! idx"
      note db = db0 [folded cur_def]
      have subA: "set (concat pre) \<subseteq> set (virtual hpre pre)"
        using list_all2_lengthD [OF h1] by (rule set_concat_virtual)
      have subC: "set (concat post) \<subseteq> set (virtual hpost post)"
        using list_all2_lengthD [OF h3] by (rule set_concat_virtual)
      have tk: "take idx (blocks bz) = pre" and dr: "drop (Suc idx) (blocks bz) = post"
        using db lp by simp_all
      have "filter ?P (concat (take idx (blocks bz))) = []"
        unfolding tk using subA Ak by (fastforce simp add: filter_empty_conv)
      moreover have "\<forall>x \<in> set (blocks bz ! i). lo \<le> x" if "idx < i" "i < length (blocks bz)" for i
      proof -
        have "length (blocks bz) = Suc (idx + length post)" unfolding db using lp by simp
        then have "i - Suc idx < length post" using that by simp
        moreover have "blocks bz ! i = post ! (i - Suc idx)"
          unfolding db using that lp by (simp add: nth_append)
        ultimately have "blocks bz ! i \<in> set post" by simp
        then have "set (blocks bz ! i) \<subseteq> set (concat post)" by auto
        then show ?thesis using subC kC by fastforce
      qed
      ultimately show ?thesis using le_neq_implies_less by blast
    qed
  qed
  then have sc: "scan_blocks bz lo hi idx idx [] = Inr ([] @ filter ?P (concat (drop idx (blocks bz))))"
      and pre: "filter ?P (concat (take idx (blocks bz))) = []"
    using scan_blocks_wf [OF hd srt, of idx idx lo hi "[]"] by blast+
  have "filter ?P (concat (blocks bz))
        = filter ?P (concat (take idx (blocks bz))) @ filter ?P (concat (drop idx (blocks bz)))"
    by (metis append_take_drop_id concat_append filter_append)
  then show ?thesis using rf sc pre by (simp add: blocked_GetKeys_def)
qed

lemma blocked_Range_wf:
  assumes "well_formed bz" "makeslice_cap_ok (int64_wrap (hi - lo))"
  shows "blocked_Range bz lo hi = Inr (filter (\<lambda>k. lo \<le> k \<and> k < hi) (blocked_GetKeys bz))"
  using blocked_RangeFunc_wf [OF assms(1), of lo hi] assms(2)
  by (simp add: blocked_Range_def blocked_RangeFunc_def)

subsection \<open>The engines at concrete inputs\<close>

lemma NewBlockedZSL_11223:
  "NewBlockedZSL [1, 1, 2, 2, 3] 2 =
     Some ([1, 1, 2, 2, 3], Inr \<lparr>blocks = [[1, 1], [2, 2], [3]], heads = [1, 2, 3], B = 2\<rparr>)"
  by code_simp

lemma NewBlockedZSL_123:
  "NewBlockedZSL [1, 2, 3] 2 =
     Some ([1, 2, 3], Inr \<lparr>blocks = [[1, 2], [3]], heads = [1, 3], B = 2\<rparr>)"
  by code_simp

lemma NewBlockedZSL_1111:
  "NewBlockedZSL [1, 1, 1, 1] 2 =
     Some ([1, 1, 1, 1], Inr \<lparr>blocks = [[1, 1], [1, 1]], heads = [1, 1], B = 2\<rparr>)"
  by code_simp

lemma NewBlockedZSL_11:
  "NewBlockedZSL [1, 1] 1 = Some ([1, 1], Inr \<lparr>blocks = [[1], [1]], heads = [1, 1], B = 1\<rparr>)"
  by code_simp

text \<open>
  With the block size \<open>2 ^ 62\<close> the product \<^verbatim>\<open>2*B\<close> wraps around to \<open>- (2 ^ 63)\<close>: on the
  engine built from \<open>[1,2,3]\<close>, \<^verbatim>\<open>Insert(4)\<close> takes the split branch and panics in
  \<^verbatim>\<open>currentBlock[:bz.B]\<close>.
\<close>

lemma NewBlockedZSL_123_wide:
  "NewBlockedZSL [1, 2, 3] (2 ^ 62)
   = Some ([1, 2, 3], Inr \<lparr>blocks = [[1, 2, 3]], heads = [1], B = 2 ^ 62\<rparr>)"
proof -
  have "chunks (2 ^ 62) [1, 2, 3 :: int] = [[1, 2, 3]]"
    by (simp add: chunks.simps [of _ "[1, 2, 3]"] chunks.simps [of _ "[]"])
  then show ?thesis using NewBlockedZSL_char [of "2 ^ 62" "[1, 2, 3]"] by simp
qed

lemma blocked_Insert_wraps:
  "blocked_Insert \<lparr>blocks = [[1, 2, 3]], heads = [1], B = 2 ^ 62\<rparr> 4 = Inl SliceBoundsOutOfRange"
proof -
  have s: "sort_Search (Suc 0) (\<lambda>i. 4 < [1 :: int] ! i) = 1" by code_simp
  have p: "sort_SearchInts [1, 2, 3] 4 = 3" by code_simp
  show ?thesis
    by (simp add: blocked_Insert_def Let_def s p int64_wrap_def)
qed

lemma NewStaticZSL_empty:
  "NewStaticZSL [] = ([], Inr \<lparr>keys = [], maxLevel = 0, next_ptrs = [[0]]\<rparr>)"
  by (simp add: NewStaticZSL_def sort_Ints_def buildPointers_def fibsOffsets_def Let_def
      zeck_loop.simps rank_loop.simps head_loop.simps)

lemma NewStaticZSL_1234:
  "NewStaticZSL [1, 2, 3, 4] =
     ([1, 2, 3, 4],
      Inr \<lparr>keys = [1, 2, 3, 4], maxLevel = 3,
           next_ptrs = [[0, 1, 2, 3], [0, 2, 0, 0], [0, 0, 4, 0], [0, 0, 0, 0], [0, 0, 0, 0]]\<rparr>)"
  by (simp add: NewStaticZSL_def sort_Ints_def buildPointers_def fibsOffsets_def Let_def
      zeck_loop.simps rank_loop.simps head_loop.simps)

lemma NewStaticZSL_11223:
  "NewStaticZSL [1, 1, 2, 2, 3] =
     ([1, 1, 2, 2, 3],
      Inr \<lparr>keys = [1, 2, 3], maxLevel = 3,
           next_ptrs = [[0, 1, 2, 3], [0, 2, 0, 0], [0, 0, 0, 0], [0, 0, 0, 0]]\<rparr>)"
  by (simp add: NewStaticZSL_def sort_Ints_def buildPointers_def fibsOffsets_def Let_def
      zeck_loop.simps rank_loop.simps head_loop.simps)

text \<open>
  C1. \<^verbatim>\<open>NewBlockedZSL\<close> does not deduplicate: built from \<open>[1,1,2,2,3]\<close> with block size 2
  the engine holds the blocks \<open>[1,1]\<close>, \<open>[2,2]\<close>, \<open>[3]\<close>, so \<^verbatim>\<open>GetKeys()\<close> is
  \<open>[1,1,2,2,3]\<close> and \<^verbatim>\<open>GetSize()\<close> is 5, not \<open>[1,2,3]\<close> and 3.
\<close>

theorem NewBlockedZSL_keeps_duplicates:
  "\<exists>bz. NewBlockedZSL [1, 1, 2, 2, 3] 2 = Some ([1, 1, 2, 2, 3], Inr bz)
        \<and> blocked_GetKeys bz = [1, 1, 2, 2, 3] \<and> blocked_GetSize bz = 5"
  by (simp add: NewBlockedZSL_11223 blocked_GetKeys_def blocked_GetSize_def)

text \<open>
  C2. The static engine built from the empty collection has size 0, but \<^verbatim>\<open>Search\<close> on it
  panics for every key: \<^verbatim>\<open>maxLevel\<close> is 0, the row \<^verbatim>\<open>next[0]\<close> has the single entry of
  level 0, and the final step reads \<^verbatim>\<open>zsl.next[0][1]\<close>.
\<close>

theorem static_Search_empty_panics:
  "\<exists>zsl. NewStaticZSL [] = ([], Inr zsl) \<and> static_GetSize zsl = 0
         \<and> static_Search zsl k = Some (Inl IndexOutOfRange)"
  by (simp add: NewStaticZSL_empty static_GetSize_def static_Search_def)

text \<open>
  C3. In the static engine built from \<open>[1,2,3,4]\<close> the key 4 is stored, and \<^verbatim>\<open>Search(4)\<close>
  returns false: the descent stops at rank 3, whose only pointer (level 3, to rank 6) is
  absent, and rank 3 has no pointer of level 1 to rank 4.
\<close>

theorem static_Search_misses_stored_key:
  "\<exists>zsl. NewStaticZSL [1, 2, 3, 4] = ([1, 2, 3, 4], Inr zsl)
         \<and> static_GetKeys zsl = [1, 2, 3, 4]
         \<and> static_Search zsl 4 = Some (Inr False)"
proof -
  have "static_Search \<lparr>keys = [1, 2, 3, 4], maxLevel = 3,
           next_ptrs = [[0, 1, 2, 3], [0, 2, 0, 0], [0, 0, 4, 0], [0, 0, 0, 0], [0, 0, 0, 0]]\<rparr> 4
        = Some (Inr False)"
    by code_simp
  then show ?thesis
    by (simp add: NewStaticZSL_1234 static_GetKeys_def)
qed

text \<open>
  C6. \<^verbatim>\<open>Range(lo, hi)\<close> with \<open>lo \<le> hi\<close> is not always the keys in \<open>[lo, hi)\<close>. On the
  engine built from \<open>[1,2,3]\<close>, \<^verbatim>\<open>Range(0, 1<<62)\<close> panics in \<^verbatim>\<open>make([]int, 0, hi-lo)\<close>,
  where \<^verbatim>\<open>RangeFunc\<close> with the same bounds yields \<open>[1,2,3]\<close>. On the engine built from
  \<open>[1,1,1,1]\<close> with block size 2, \<^verbatim>\<open>GetKeys()\<close> is \<open>[1,1,1,1]\<close> and \<^verbatim>\<open>Range(1, 2)\<close> is
  \<open>[1,1]\<close>.
\<close>

theorem blocked_Range_fails:
  "(\<exists>bz. NewBlockedZSL [1, 2, 3] 2 = Some ([1, 2, 3], Inr bz)
         \<and> blocked_GetKeys bz = [1, 2, 3]
         \<and> blocked_Range bz 0 (2 ^ 62) = Inl MakesliceCapOutOfRange
         \<and> blocked_RangeFunc bz 0 (2 ^ 62) = Inr [1, 2, 3])
   \<and> (\<exists>bz. NewBlockedZSL [1, 1, 1, 1] 2 = Some ([1, 1, 1, 1], Inr bz)
         \<and> blocked_GetKeys bz = [1, 1, 1, 1]
         \<and> blocked_Range bz 1 2 = Inr [1, 1]
         \<and> blocked_RangeFunc bz 1 2 = Inr [1, 1])"
proof -
  have "blocked_Range \<lparr>blocks = [[1, 2], [3]], heads = [1, 3], B = 2\<rparr> 0 (2 ^ 62)
        = Inl MakesliceCapOutOfRange"
    by (simp add: blocked_Range_def makeslice_cap_ok_def int64_wrap_def maxAlloc_def)
  moreover have "blocked_RangeFunc \<lparr>blocks = [[1, 2], [3]], heads = [1, 3], B = 2\<rparr> 0 (2 ^ 62)
        = Inr [1, 2, 3]"
    by code_simp
  moreover have "blocked_Range \<lparr>blocks = [[1, 1], [1, 1]], heads = [1, 1], B = 2\<rparr> 1 2 = Inr [1, 1]"
    by code_simp
  moreover have "blocked_RangeFunc \<lparr>blocks = [[1, 1], [1, 1]], heads = [1, 1], B = 2\<rparr> 1 2 = Inr [1, 1]"
    by code_simp
  ultimately show ?thesis
    by (simp add: NewBlockedZSL_123 NewBlockedZSL_1111 blocked_GetKeys_def)
qed

text \<open>
  C7. Built from \<open>[1,1,2,2,3]\<close>, the static engine's \<^verbatim>\<open>GetKeys()\<close> is \<open>[1,2,3]\<close> and the
  blocked engine's (block size 2) is \<open>[1,1,2,2,3]\<close>: the two differ right after
  construction.
\<close>

theorem engines_differ_after_construction:
  "\<exists>zsl bz. NewStaticZSL [1, 1, 2, 2, 3] = ([1, 1, 2, 2, 3], Inr zsl)
         \<and> NewBlockedZSL [1, 1, 2, 2, 3] 2 = Some ([1, 1, 2, 2, 3], Inr bz)
         \<and> static_GetKeys zsl = [1, 2, 3]
         \<and> blocked_GetKeys bz = [1, 1, 2, 2, 3]"
  by (simp add: NewStaticZSL_11223 NewBlockedZSL_11223 static_GetKeys_def blocked_GetKeys_def)

text \<open>
  C8. On the blocked engine built from \<open>[1,1]\<close> with block size 1, the first \<^verbatim>\<open>Delete(1)\<close>
  returns true and leaves \<^verbatim>\<open>GetKeys()\<close> \<open>= [1]\<close>; the second \<^verbatim>\<open>Delete(1)\<close> returns false
  although 1 is stored, and changes nothing.
\<close>

theorem blocked_Delete_misses_stored_key:
  "\<exists>bz bz'. NewBlockedZSL [1, 1] 1 = Some ([1, 1], Inr bz)
         \<and> blocked_Delete bz 1 = Inr (True, bz')
         \<and> blocked_GetKeys bz' = [1]
         \<and> blocked_Delete bz' 1 = Inr (False, bz')"
proof -
  have "blocked_Delete \<lparr>blocks = [[1], [1]], heads = [1, 1], B = 1\<rparr> 1
        = Inr (True, \<lparr>blocks = [[1], []], heads = [1, 1], B = 1\<rparr>)"
    by code_simp
  moreover have "blocked_Delete \<lparr>blocks = [[1], []], heads = [1, 1], B = 1\<rparr> 1
        = Inr (False, \<lparr>blocks = [[1], []], heads = [1, 1], B = 1\<rparr>)"
    by code_simp
  ultimately show ?thesis
    by (simp del: One_nat_def add: NewBlockedZSL_11 blocked_GetKeys_def)
qed

text \<open>
  C9. \<^verbatim>\<open>Range\<close> is not total: on the blocked engine built from \<open>[1,2,3]\<close>, \<^verbatim>\<open>Range(5, 3)\<close>
  panics, because the capacity \<^verbatim>\<open>hi-lo\<close> handed to \<^verbatim>\<open>make\<close> is negative.
  \<^verbatim>\<open>RangeFunc(5, 3, fn)\<close> on the same engine returns without calling \<^verbatim>\<open>fn\<close>.
\<close>

theorem blocked_Range_panics_when_hi_below_lo:
  "\<exists>bz. NewBlockedZSL [1, 2, 3] 2 = Some ([1, 2, 3], Inr bz)
        \<and> blocked_Range bz 5 3 = Inl MakesliceCapOutOfRange
        \<and> blocked_RangeFunc bz 5 3 = Inr []"
proof -
  have "blocked_Range \<lparr>blocks = [[1, 2], [3]], heads = [1, 3], B = 2\<rparr> 5 3
        = Inl MakesliceCapOutOfRange"
    by (simp add: blocked_Range_def makeslice_cap_ok_def int64_wrap_def)
  moreover have "blocked_RangeFunc \<lparr>blocks = [[1, 2], [3]], heads = [1, 3], B = 2\<rparr> 5 3 = Inr []"
    by code_simp
  ultimately show ?thesis
    by (simp add: NewBlockedZSL_123)
qed

subsection \<open>The pointer table follows the Zeckendorf decomposition\<close>

text \<open>
  C4. \<^verbatim>\<open>buildPointers\<close> returns normally on every engine. With \<open>n\<close> the number of keys,
  \<^verbatim>\<open>maxLevel\<close> is the number of offsets \<open>F[i] \<le> n\<close>, the table has \<open>n + 1\<close> rows of
  \<open>maxLevel + 1\<close> entries, and for every rank \<open>r\<close> in \<open>1..n\<close> and every offset index
  \<open>i < maxLevel\<close> the entry \<^verbatim>\<open>next[r][i+1]\<close> is \<open>r + F[i]\<close> when \<open>F[i]\<close> is a term of the
  greedy decomposition of \<open>r\<close> and \<open>r + F[i] \<le> n\<close>, and 0 otherwise. The terms of a rank
  \<open>r \<le> n\<close> all have an index below \<^verbatim>\<open>maxLevel\<close> (an offset of a larger index exceeds
  \<open>n\<close>, so it is no term and has no entry), and no two of them are consecutive. Rank 0
  points to rank \<open>F[L-1]\<close> at every level \<open>L\<close> in \<open>1..maxLevel\<close>.
\<close>

theorem buildPointers_zeckendorf_law:
  "\<exists>zsl'. buildPointers zsl = Inr zsl'
     \<and> keys zsl' = keys zsl
     \<and> maxLevel zsl' \<le> length fibsOffsets
     \<and> (\<forall>i. i < length fibsOffsets \<longrightarrow> (i < maxLevel zsl' \<longleftrightarrow> fibsOffsets ! i \<le> length (keys zsl)))
     \<and> length (next_ptrs zsl') = length (keys zsl) + 1
     \<and> (\<forall>r. r \<le> length (keys zsl) \<longrightarrow> length (next_ptrs zsl' ! r) = maxLevel zsl' + 1)
     \<and> (\<forall>r i. 1 \<le> r \<and> r \<le> length (keys zsl) \<and> i < maxLevel zsl' \<longrightarrow>
            next_ptrs zsl' ! r ! (i + 1)
              = (if i \<in> set (zeckendorf_terms r) \<and> r + fibsOffsets ! i \<le> length (keys zsl)
                 then r + fibsOffsets ! i else 0))
     \<and> (\<forall>r i. 1 \<le> r \<and> r \<le> length (keys zsl) \<and> i \<in> set (zeckendorf_terms r) \<longrightarrow>
            i < maxLevel zsl' \<and> Suc i \<notin> set (zeckendorf_terms r))
     \<and> (\<forall>L. 1 \<le> L \<and> L \<le> maxLevel zsl' \<longrightarrow>
            fibsOffsets ! (L - 1) \<le> length (keys zsl)
            \<and> next_ptrs zsl' ! 0 ! L = fibsOffsets ! (L - 1))"
proof -
  let ?n = "length (keys zsl)"
  let ?m = "fib_level ?n"
  define zrow where "zrow = replicate (?m + 1) (0::nat)"
  define init where "init = replicate (?n + 1) zrow"
  let ?tab = "rank_rows ?n ?m 1 init"
  let ?row0 = "head_row ?n ?m 1 zrow"
  let ?z = "zsl\<lparr>maxLevel := ?m, next_ptrs := ?tab[0 := ?row0]\<rparr>"
  have zrow_len: "length zrow = ?m + 1" by (simp add: zrow_def)
  have zrow_nth: "zrow ! L = 0" if "L < ?m + 1" for L
    unfolding zrow_def using that by (rule nth_replicate)
  have init_len: "length init = ?n + 1" by (simp add: init_def)
  have init_nth: "init ! r = zrow" if "r < ?n + 1" for r
    unfolding init_def using that by (rule nth_replicate)
  have build: "buildPointers zsl = Inr ?z"
    unfolding init_def zrow_def by (rule buildPointers_char)
  have len: "length (next_ptrs ?z) = ?n + 1" by (simp add: init_len)
  have row_r: "next_ptrs ?z ! r = zeck_row ?n r (zeckendorf ?m r) zrow" if "1 \<le> r" "r \<le> ?n" for r
    using that by (simp add: rank_rows_nth init_len init_nth)
  have row_0: "next_ptrs ?z ! 0 = ?row0"
    by (simp add: init_len)
  have rows: "length (next_ptrs ?z ! r) = ?m + 1" if "r \<le> ?n" for r
  proof (cases "r = 0")
    case True
    then show ?thesis using row_0 by (simp add: zrow_len)
  next
    case False
    then have "1 \<le> r" by simp
    then show ?thesis using that row_r [of r] by (simp add: zrow_len)
  qed
  have ptr: "next_ptrs ?z ! r ! (i + 1)
              = (if i \<in> set (zeckendorf_terms r) \<and> r + fibsOffsets ! i \<le> ?n
                 then r + fibsOffsets ! i else 0)"
    if "1 \<le> r" "r \<le> ?n" "i < ?m" for r i
  proof -
    have "zeckendorf ?m r = zeckendorf_terms r"
      using that by (simp add: zeckendorf_terms_fib_level)
    moreover have "i + 1 < length zrow" using that by (simp add: zrow_len)
    moreover have "zrow ! (i + 1) = 0" using that by (intro zrow_nth) simp
    ultimately show ?thesis
      using that by (simp only: row_r zeck_row_nth) simp
  qed
  have terms: "i < ?m \<and> Suc i \<notin> set (zeckendorf_terms r)"
    if "r \<le> ?n" "i \<in> set (zeckendorf_terms r)" for r i
  proof
    from that have "i \<in> set (zeckendorf ?m r)" by (simp add: zeckendorf_terms_fib_level)
    then show "i < ?m" by (rule zeckendorf_less)
    from that(2) show "Suc i \<notin> set (zeckendorf_terms r)"
      unfolding zeckendorf_terms_def by (rule zeckendorf_no_consecutive)
  qed
  have head: "fibsOffsets ! (L - 1) \<le> ?n \<and> next_ptrs ?z ! 0 ! L = fibsOffsets ! (L - 1)"
    if "1 \<le> L" "L \<le> ?m" for L
  proof -
    have "fibsOffsets ! (L - 1) \<le> ?n" using that by (intro fib_level_below) simp
    moreover have "L < length zrow" using that by (simp add: zrow_len)
    ultimately show ?thesis using that by (simp only: row_0 head_row_nth) simp
  qed
  have lvl: "maxLevel ?z = ?m" and ks: "keys ?z = keys zsl" by simp_all
  show ?thesis
  proof (intro exI [of _ ?z] conjI allI impI)
    show "buildPointers zsl = Inr ?z" by (rule build)
    show "keys ?z = keys zsl" by (rule ks)
    show "maxLevel ?z \<le> length fibsOffsets" unfolding lvl by (rule fib_level_le)
    show "length (next_ptrs ?z) = ?n + 1" by (rule len)
  next
    fix i assume "i < length fibsOffsets"
    then show "i < maxLevel ?z \<longleftrightarrow> fibsOffsets ! i \<le> ?n"
      unfolding lvl by (rule fib_level_iff)
  next
    fix r assume "r \<le> ?n"
    then show "length (next_ptrs ?z ! r) = maxLevel ?z + 1" unfolding lvl by (rule rows)
  next
    fix r i assume "1 \<le> r \<and> r \<le> ?n \<and> i < maxLevel ?z"
    then have "1 \<le> r" "r \<le> ?n" "i < ?m" by simp_all
    then show "next_ptrs ?z ! r ! (i + 1)
              = (if i \<in> set (zeckendorf_terms r) \<and> r + fibsOffsets ! i \<le> ?n
                 then r + fibsOffsets ! i else 0)"
      by (rule ptr)
  next
    fix r i assume a: "1 \<le> r \<and> r \<le> ?n \<and> i \<in> set (zeckendorf_terms r)"
    then show "i < maxLevel ?z" unfolding lvl using terms by blast
    from a show "Suc i \<notin> set (zeckendorf_terms r)" using terms by blast
  next
    fix L assume a: "1 \<le> L \<and> L \<le> maxLevel ?z"
    then have b: "1 \<le> L" "L \<le> ?m" by simp_all
    show "fibsOffsets ! (L - 1) \<le> ?n" using head [OF b] by simp
    show "next_ptrs ?z ! 0 ! L = fibsOffsets ! (L - 1)" using head [OF b] by simp
  qed
qed

text \<open>The law at the four keys 10, 20, 30, 40: \<open>2 = F[1]\<close> points to rank 4 at level 2,
  \<open>4 = F[2] + F[0]\<close> and \<open>3 = F[2]\<close> have no pointer in range, and the head reaches rank 3 at level 3.\<close>

theorem buildPointers_zeckendorf_law_witness:
  "\<exists>zsl'. buildPointers \<lparr>keys = [10, 20, 30, 40], maxLevel = 0, next_ptrs = []\<rparr> = Inr zsl'
     \<and> maxLevel zsl' = 3
     \<and> next_ptrs zsl' ! 2 ! 2 = 4
     \<and> next_ptrs zsl' ! 4 ! 3 = 0
     \<and> next_ptrs zsl' ! 3 ! 1 = 0
     \<and> next_ptrs zsl' ! 0 ! 3 = 3"
proof -
  let ?zsl = "\<lparr>keys = [10, 20, 30, 40], maxLevel = 0, next_ptrs = []\<rparr>"
  obtain zsl' where
        b: "buildPointers ?zsl = Inr zsl'"
    and lv: "\<forall>i. i < length fibsOffsets \<longrightarrow> (i < maxLevel zsl' \<longleftrightarrow> fibsOffsets ! i \<le> length (keys ?zsl))"
    and p: "\<forall>r i. 1 \<le> r \<and> r \<le> length (keys ?zsl) \<and> i < maxLevel zsl' \<longrightarrow>
            next_ptrs zsl' ! r ! (i + 1)
              = (if i \<in> set (zeckendorf_terms r) \<and> r + fibsOffsets ! i \<le> length (keys ?zsl)
                 then r + fibsOffsets ! i else 0)"
    and h: "\<forall>L. 1 \<le> L \<and> L \<le> maxLevel zsl' \<longrightarrow>
            fibsOffsets ! (L - 1) \<le> length (keys ?zsl)
            \<and> next_ptrs zsl' ! 0 ! L = fibsOffsets ! (L - 1)"
    using buildPointers_zeckendorf_law [of ?zsl] by blast
  have "2 < maxLevel zsl'" using lv [rule_format, of 2] by (simp add: fibsOffsets_def)
  moreover have "\<not> 3 < maxLevel zsl'" using lv [rule_format, of 3] by (simp add: fibsOffsets_def)
  ultimately have m: "maxLevel zsl' = 3" by simp
  have z2: "zeckendorf_terms 2 = [1]"
    by (simp add: zeckendorf_terms_def zeckendorf.simps fibsOffsets_def)
  have z3: "zeckendorf_terms 3 = [2]"
    by (simp add: zeckendorf_terms_def zeckendorf.simps fibsOffsets_def)
  have z4: "zeckendorf_terms 4 = [2, 0]"
    by (simp add: zeckendorf_terms_def zeckendorf.simps fibsOffsets_def)
  have e: "(1::nat) + 1 = 2" by simp
  have "next_ptrs zsl' ! 2 ! 2 = 4"
    using p [rule_format, of 2 1] m unfolding e by (simp add: z2 fibsOffsets_def)
  moreover have "next_ptrs zsl' ! 4 ! 3 = 0"
    using p [rule_format, of 4 2] m by (simp add: z4 fibsOffsets_def)
  moreover have "next_ptrs zsl' ! 3 ! 1 = 0"
    using p [rule_format, of 3 0] m by (simp add: z3 fibsOffsets_def)
  moreover have "next_ptrs zsl' ! 0 ! 3 = 3"
    using h [rule_format, of 3] m by (simp add: fibsOffsets_def)
  ultimately show ?thesis using b m by simp
qed

subsection \<open>The constructors sort the caller's slice\<close>

text \<open>
  C10. Both constructors sort the slice they are given in place: for every input \<open>ks\<close>
  (and every block size \<open>b \<ge> 1\<close>, for which \<^verbatim>\<open>NewBlockedZSL\<close> returns), the caller's
  slice after \<^verbatim>\<open>NewStaticZSL(ks)\<close> and after \<^verbatim>\<open>NewBlockedZSL(ks, b)\<close> holds the same
  values in ascending order; when the input was not in ascending order, its order has
  changed.
\<close>

theorem constructors_sort_the_argument:
  assumes "1 \<le> b"
  shows "\<exists>ks' zsl bz. NewStaticZSL ks = (ks', Inr zsl) \<and> NewBlockedZSL ks b = Some (ks', Inr bz)
           \<and> sorted ks' \<and> mset ks' = mset ks \<and> (\<not> sorted ks \<longrightarrow> ks' \<noteq> ks)"
proof -
  obtain zsl where "NewStaticZSL ks = (sort ks, Inr zsl)"
    using NewStaticZSL_char by blast
  moreover have "\<exists>bz. NewBlockedZSL ks b = Some (sort ks, Inr bz)"
    using assms by (simp add: NewBlockedZSL_char)
  moreover have "\<not> sorted ks \<longrightarrow> sort ks \<noteq> ks"
    by (metis sorted_sort)
  ultimately show ?thesis by auto
qed

text \<open>At the input \<open>[5,3,1,4,2]\<close> the caller's slice is \<open>[1,2,3,4,5]\<close> afterwards.\<close>

theorem constructors_sort_the_argument_witness:
  "\<exists>ks' zsl bz. NewStaticZSL [5, 3, 1, 4, 2] = (ks', Inr zsl)
      \<and> NewBlockedZSL [5, 3, 1, 4, 2] 2 = Some (ks', Inr bz)
      \<and> ks' = [1, 2, 3, 4, 5]"
proof -
  have b: "(1::nat) \<le> 2" by simp
  obtain ks' zsl bz where "NewStaticZSL [5, 3, 1, 4, 2] = (ks', Inr zsl)"
      "NewBlockedZSL [5, 3, 1, 4, 2] 2 = Some (ks', Inr bz)"
    using constructors_sort_the_argument [OF b, of "[5, 3, 1, 4, 2]"] by blast
  moreover have "fst (NewStaticZSL [5, 3, 1, 4, 2]) = [1, 2, 3, 4, 5]"
    by (simp add: NewStaticZSL_def sort_Ints_def Let_def)
  ultimately show ?thesis by simp
qed

subsection \<open>Block sizes of the blocked engine\<close>

text \<open>
  C5, as amended. For every input \<open>ks\<close>, every block size \<open>b\<close> with \<open>1 \<le> b < 2 ^ 62\<close>
  (the block sizes for which \<^verbatim>\<open>2*B\<close> does not wrap around) and every history \<open>ops\<close> of
  \<^verbatim>\<open>Insert\<close> and \<^verbatim>\<open>Delete\<close> calls, construction and the history run without a panic,
  and in the resulting engine every block except possibly the last one has at least
  \<^verbatim>\<open>B/2\<close> keys; when the history holds no \<^verbatim>\<open>Delete\<close>, every block has at most \<^verbatim>\<open>2*B\<close>
  keys.
\<close>

theorem blocked_block_sizes:
  assumes "1 \<le> b" "b < 2 ^ 62"
  shows "\<exists>bz0 bz. NewBlockedZSL ks b = Some (sort ks, Inr bz0) \<and> blocked_run bz0 ops = Inr bz
           \<and> B bz = b
           \<and> (\<forall>blk \<in> set (butlast (blocks bz)). b div 2 \<le> length blk)
           \<and> ((\<forall>x \<in> set ops. is_Insert x) \<longrightarrow> (\<forall>blk \<in> set (blocks bz). length blk \<le> 2 * b))"
proof -
  obtain bz0 where n: "NewBlockedZSL ks b = Some (sort ks, Inr bz0)" "size_inv bz0" "upper_inv bz0"
      "B bz0 = b"
    using NewBlockedZSL_size_inv [OF assms] by blast
  obtain bz where r: "blocked_run bz0 ops = Inr bz" "size_inv bz" "B bz = B bz0"
      "(\<forall>x \<in> set ops. is_Insert x) \<and> upper_inv bz0 \<longrightarrow> upper_inv bz"
    using blocked_run_size_inv [OF n(2)] by blast
  show ?thesis using n r by (auto simp add: size_inv_def upper_inv_def)
qed

text \<open>
  The statement at block size 2, keys \<open>[1,2,3,4,5]\<close> and the history \<^verbatim>\<open>Insert(6)\<close>,
  \<^verbatim>\<open>Insert(7)\<close>: the blocks are \<open>[1,2]\<close>, \<open>[3,4]\<close>, \<open>[5,6,7]\<close>.
\<close>

theorem blocked_block_sizes_witness:
  "\<exists>bz0 bz. NewBlockedZSL [1, 2, 3, 4, 5] 2 = Some ([1, 2, 3, 4, 5], Inr bz0)
      \<and> blocked_run bz0 [Insert 6, Insert 7] = Inr bz
      \<and> blocks bz = [[1, 2], [3, 4], [5, 6, 7]]"
proof -
  have b: "(1::nat) \<le> 2" and b62: "(2::nat) < 2 ^ 62" by simp_all
  obtain bz0 bz where new: "NewBlockedZSL [1, 2, 3, 4, 5] 2 = Some (sort [1, 2, 3, 4, 5], Inr bz0)"
      and run: "blocked_run bz0 [Insert 6, Insert 7] = Inr bz"
    using blocked_block_sizes [OF b b62, of "[1, 2, 3, 4, 5]" "[Insert 6, Insert 7]"] by blast
  have new': "NewBlockedZSL [1, 2, 3, 4, 5] 2
              = Some ([1, 2, 3, 4, 5], Inr \<lparr>blocks = [[1, 2], [3, 4], [5]], heads = [1, 3, 5], B = 2\<rparr>)"
    by code_simp
  have run': "blocked_run \<lparr>blocks = [[1, 2], [3, 4], [5]], heads = [1, 3, 5], B = 2\<rparr> [Insert 6, Insert 7]
              = Inr \<lparr>blocks = [[1, 2], [3, 4], [5, 6, 7]], heads = [1, 3, 5], B = 2\<rparr>"
    by code_simp
  from new new' have "bz0 = \<lparr>blocks = [[1, 2], [3, 4], [5]], heads = [1, 3, 5], B = 2\<rparr>" by simp
  with run run' have "blocks bz = [[1, 2], [3, 4], [5, 6, 7]]" by simp
  with new' run \<open>bz0 = _\<close> show ?thesis by simp
qed

text \<open>
  The property as the specification states it fails in two ways. Built from
  \<open>[1,2,3,4,5]\<close> with block size 4, the engine has the blocks \<open>[1,2,3,4]\<close> and \<open>[5]\<close>:
  the last of two blocks has 1 key, fewer than \<^verbatim>\<open>B/2\<close> = 2. Built from
  \<open>[10,20,...,120]\<close> with block size 4 (three blocks of 4 keys), after inserting 51, 52,
  53, 54 and deleting 10, 20, 30 the first of two blocks has 9 keys, more than
  \<^verbatim>\<open>2*B\<close> = 8: \<^verbatim>\<open>Delete\<close> concatenated the block \<open>[40]\<close> with a block of 8 keys.
\<close>

theorem blocked_block_sizes_counterexample:
  "(\<exists>bz. NewBlockedZSL [1, 2, 3, 4, 5] 4 = Some ([1, 2, 3, 4, 5], Inr bz)
         \<and> blocks bz = [[1, 2, 3, 4], [5]] \<and> \<not> sizes_as_claimed bz)
   \<and> (\<exists>bz0 bz. NewBlockedZSL [10, 20, 30, 40, 50, 60, 70, 80, 90, 100, 110, 120] 4
                  = Some ([10, 20, 30, 40, 50, 60, 70, 80, 90, 100, 110, 120], Inr bz0)
         \<and> sizes_as_claimed bz0
         \<and> blocked_run bz0 [Insert 51, Insert 52, Insert 53, Insert 54, Delete 10, Delete 20, Delete 30]
             = Inr bz
         \<and> blocks bz = [[40, 50, 51, 52, 53, 54, 60, 70, 80], [90, 100, 110, 120]]
         \<and> \<not> sizes_as_claimed bz)"
proof -
  have n1: "NewBlockedZSL [1, 2, 3, 4, 5] 4
            = Some ([1, 2, 3, 4, 5], Inr \<lparr>blocks = [[1, 2, 3, 4], [5]], heads = [1, 5], B = 4\<rparr>)"
    by code_simp
  have c1: "\<not> sizes_as_claimed \<lparr>blocks = [[1, 2, 3, 4], [5]], heads = [1, 5], B = 4\<rparr>"
    by (simp add: sizes_as_claimed_def)
  have n2: "NewBlockedZSL [10, 20, 30, 40, 50, 60, 70, 80, 90, 100, 110, 120] 4
            = Some ([10, 20, 30, 40, 50, 60, 70, 80, 90, 100, 110, 120],
                    Inr \<lparr>blocks = [[10, 20, 30, 40], [50, 60, 70, 80], [90, 100, 110, 120]],
                         heads = [10, 50, 90], B = 4\<rparr>)"
    by code_simp
  have c2: "sizes_as_claimed \<lparr>blocks = [[10, 20, 30, 40], [50, 60, 70, 80], [90, 100, 110, 120]],
                         heads = [10, 50, 90], B = 4\<rparr>"
    by (simp add: sizes_as_claimed_def)
  have r2: "blocked_run \<lparr>blocks = [[10, 20, 30, 40], [50, 60, 70, 80], [90, 100, 110, 120]],
                         heads = [10, 50, 90], B = 4\<rparr>
              [Insert 51, Insert 52, Insert 53, Insert 54, Delete 10, Delete 20, Delete 30]
            = Inr \<lparr>blocks = [[40, 50, 51, 52, 53, 54, 60, 70, 80], [90, 100, 110, 120]],
                   heads = [40, 90], B = 4\<rparr>"
    by code_simp
  have c3: "\<not> sizes_as_claimed \<lparr>blocks = [[40, 50, 51, 52, 53, 54, 60, 70, 80], [90, 100, 110, 120]],
                   heads = [40, 90], B = 4\<rparr>"
    by (simp add: sizes_as_claimed_def)
  show ?thesis using n1 c1 n2 c2 r2 c3 by simp
qed

end
